theory Spec2Isabelle
  imports Main
begin

section \<open>Shared data: errors, retry bookkeeping, the cooperative run-time\<close>

text \<open>
  Every \<^verbatim>\<open>throw\<close> and every rejected promise of the JavaScript source is a value of
  \<open>error\<close>; a fallible operation returns \<open>error + 'a\<close> with \<open>Inl\<close> for the exception.
\<close>

datatype error =
    UploaderNotAvailable    \<comment> \<open>'S3 uploader not available' (recording-manager.js:167)\<close>
  | NotInitialized          \<comment> \<open>'S3 uploader not initialized' (part_001:42)\<close>
  | FileNotFound            \<comment> \<open>'File not found: ...' (part_001:46)\<close>
  | NoBucket                \<comment> \<open>'No S3 bucket specified in token or configuration'\<close>
  | StatFailed              \<comment> \<open>fs.statSync on a missing file\<close>
  | S3Error                 \<comment> \<open>the promise of this.s3.upload rejected\<close>
  | NetworkError            \<comment> \<open>the promise of axios rejected\<close>
  | HttpStatus nat          \<comment> \<open>'HTTP <status>: <statusText>' (part_002:345)\<close>
  | UnlinkFailed            \<comment> \<open>fs.unlink called back with an error\<close>
  | TransformFailed         \<comment> \<open>a stream of the compression pipeline emitted 'error'\<close>

text \<open>
  The two task objects share the fields \<open>attempts\<close> and \<open>maxAttempts\<close>
  (recording-manager.js:126-132, part_002:266-271).
\<close>

record retry_task =
  attempts :: nat
  maxAttempts :: nat

text \<open>
  Both managers carry the boolean \<open>processing\<close>. \<open>now\<close> is the value \<^verbatim>\<open>Date.now()\<close>
  returns (milliseconds); it belongs to the run-time, and is kept beside the flag so that
  every function reads and advances one clock.
\<close>

record drain_state =
  processing :: bool
  now :: nat

section \<open>Utils.createRetryWrapper and S3Uploader (utils.js:73-92, part_001)\<close>

record connection =
  token_s3_bucket :: "string option"          \<comment> \<open>connection.token?.s3?.bucket\<close>
  token_meta :: "(string \<times> string) list"      \<comment> \<open>connection.token?.meta\<close>

record upload_task = retry_task +
  filePath :: string
  connection :: connection
  sessionId :: string

text \<open>
  The S3 client's configuration. \<open>s3_key\<close> stands for \<^verbatim>\<open>generateS3Key\<close>, a pure string
  templating of the file name and the token metadata that neither fails nor calls S3.
\<close>

record s3_config =
  initialized :: bool
  s3_default_bucket :: "string option"
  s3_key :: "string \<Rightarrow> connection \<Rightarrow> string"

text \<open>
  The environment of the upload path: \<open>s3_ok k\<close> tells whether the \<open>k\<close>-th invocation of
  \<^verbatim>\<open>this.s3.upload\<close> (counted from 0 over the life of the process) resolves, \<open>s3_ms k\<close>
  how long it takes.
\<close>

record s3_env =
  s3_ok :: "nat \<Rightarrow> bool"
  s3_ms :: "nat \<Rightarrow> nat"

text \<open>
  The state of a RecordingManager with its S3Uploader and file system: the fields
  \<open>uploadQueue\<close> and \<open>processing\<close> of the class, the clock, the files on disk (path to
  size in bytes, and the paths the process may not delete), and three counters that play
  the role of jest's call counts: \<open>s3_calls\<close> counts invocations of
  \<^verbatim>\<open>this.s3.upload\<close>, \<open>upload_attempts\<close> invocations of \<^verbatim>\<open>uploadRecording\<close>, and
  \<open>transform_calls\<close> invocations of the gzip or zip transform.
\<close>

record RecordingManager = drain_state +
  uploadQueue :: "upload_task list"
  files :: "string \<Rightarrow> nat option"
  undeletable :: "string \<Rightarrow> bool"   \<comment> \<open>paths on which fs.unlink reports an error\<close>
  s3_calls :: nat
  upload_attempts :: nat
  transform_calls :: nat

definition sleep :: "nat \<Rightarrow> RecordingManager \<Rightarrow> RecordingManager" where
  "sleep ms s = s\<lparr>now := now s + ms\<rparr>"

text \<open>
  \<^verbatim>\<open>for (let attempt = 0; attempt <= maxRetries; attempt++)\<close> of createRetryWrapper, from
  the given value of \<open>attempt\<close>. The wrapped function returns its outcome and the new
  state. A loop left by its condition makes the async function return \<^verbatim>\<open>undefined\<close>,
  which is \<open>Inr None\<close>.
\<close>

function createRetryWrapper ::
  "(RecordingManager \<Rightarrow> (error + 'a) \<times> RecordingManager) \<Rightarrow> nat \<Rightarrow> nat \<Rightarrow> nat \<Rightarrow>
     RecordingManager \<Rightarrow> (error + 'a option) \<times> RecordingManager" where
  "createRetryWrapper fn maxRetries baseDelay attempt s =
     (if attempt \<le> maxRetries then
        (case fn s of
           (Inr v, s') \<Rightarrow> (Inr (Some v), s')
         | (Inl lastError, s') \<Rightarrow>
             if attempt = maxRetries then (Inl lastError, s')
             else createRetryWrapper fn maxRetries baseDelay (Suc attempt)
                    (sleep (baseDelay * 2 ^ attempt) s'))
      else (Inr None, s))"
  by pat_completeness auto
termination
  by (relation "measure (\<lambda>(fn, maxRetries, baseDelay, attempt, s). Suc maxRetries - attempt)")
     auto

declare createRetryWrapper.simps [simp del]

definition isAvailable :: "s3_config \<Rightarrow> bool" where
  "isAvailable cfg = initialized cfg"

definition getBucket :: "s3_config \<Rightarrow> connection \<Rightarrow> error + string" where
  "getBucket cfg conn =
     (case token_s3_bucket conn of
        Some b \<Rightarrow> Inr b
      | None \<Rightarrow> (case s3_default_bucket cfg of Some b \<Rightarrow> Inr b | None \<Rightarrow> Inl NoBucket))"

text \<open>
  performUpload: \<^verbatim>\<open>fs.statSync\<close> throws on a missing file; otherwise either branch (the
  multipart path above 100 MiB, the plain path below) invokes \<^verbatim>\<open>this.s3.upload\<close> once.
\<close>

definition s3_upload_call :: "s3_env \<Rightarrow> RecordingManager \<Rightarrow> (error + unit) \<times> RecordingManager" where
  "s3_upload_call e s =
     (let k = s3_calls s;
          s' = s\<lparr>now := now s + s3_ms e k, s3_calls := Suc k\<rparr>
      in (if s3_ok e k then Inr () else Inl S3Error, s'))"

definition multipartUpload :: "s3_env \<Rightarrow> RecordingManager \<Rightarrow> (error + unit) \<times> RecordingManager" where
  "multipartUpload e s = s3_upload_call e s"

definition performUpload ::
  "s3_env \<Rightarrow> string \<Rightarrow> string \<Rightarrow> string \<Rightarrow> RecordingManager \<Rightarrow> (error + unit) \<times> RecordingManager" where
  "performUpload e bucket key path s =
     (case files s path of
        None \<Rightarrow> (Inl StatFailed, s)
      | Some sz \<Rightarrow>
          if sz > 100 * 1024 * 1024 then multipartUpload e s else s3_upload_call e s)"

definition upload ::
  "s3_config \<Rightarrow> s3_env \<Rightarrow> string \<Rightarrow> connection \<Rightarrow> RecordingManager \<Rightarrow> (error + string) \<times> RecordingManager" where
  "upload cfg e path conn s =
     (if \<not> isAvailable cfg then (Inl NotInitialized, s)
      else if files s path = None then (Inl FileNotFound, s)
      else (case getBucket cfg conn of
              Inl err \<Rightarrow> (Inl err, s)
            | Inr bucket \<Rightarrow>
                (let key = s3_key cfg path conn in
                 case createRetryWrapper (performUpload e bucket key path) 3 2000 0 s of
                   (Inl err, s') \<Rightarrow> (Inl err, s')
                 | (Inr _, s') \<Rightarrow> (Inr key, s'))))"

section \<open>RecordingManager: the upload queue (recording-manager.js:125-187)\<close>

record rm_config =
  s3Uploader :: "s3_config option"                   \<comment> \<open>this.s3Uploader, possibly null\<close>
  recordings_delete_local_after_upload :: bool
  recordings_compression_format :: "string option"   \<comment> \<open>absent in the configuration: None\<close>

text \<open>\<^verbatim>\<open>promisify(fs.unlink)(path)\<close>: rejects when the file is missing or may not be deleted.\<close>

definition unlink :: "string \<Rightarrow> RecordingManager \<Rightarrow> (error + unit) \<times> RecordingManager" where
  "unlink path s =
     (if files s path = None \<or> undeletable s path then (Inl UnlinkFailed, s)
      else (Inr (), s\<lparr>files := (files s)(path := None)\<rparr>))"

text \<open>
  uploadRecording: one delivery attempt of the queue. The error of the unlink after a
  successful upload is caught and only logged.
\<close>

definition uploadRecording ::
  "rm_config \<Rightarrow> s3_env \<Rightarrow> upload_task \<Rightarrow> RecordingManager \<Rightarrow> (error + string) \<times> RecordingManager" where
  "uploadRecording cfg e upload_t s0 =
     (let s = s0\<lparr>upload_attempts := Suc (upload_attempts s0)\<rparr> in
      case s3Uploader cfg of
        None \<Rightarrow> (Inl UploaderNotAvailable, s)
      | Some s3cfg \<Rightarrow>
          (case upload s3cfg e (filePath upload_t) (connection upload_t) s of
             (Inl err, s') \<Rightarrow> (Inl err, s')
           | (Inr s3Key, s') \<Rightarrow>
               if recordings_delete_local_after_upload cfg
               then (Inr s3Key, snd (unlink (filePath upload_t) s'))
               else (Inr s3Key, s')))"

text \<open>
  The drain loop of processUploadQueue is an async function: it runs until its next
  \<^verbatim>\<open>await\<close> and is resumed later. \<open>rm_await\<close> names the two places where it waits: for the
  promise of \<^verbatim>\<open>uploadRecording(upload)\<close> (line 148; the task is held in the local variable
  \<^verbatim>\<open>upload\<close>), and for the timer of line 155, which fires at the given time.
\<close>

datatype rm_await = Uploading upload_task | BackingOff nat

text \<open>Lines 144-148: the loop test, \<^verbatim>\<open>shift()\<close>, and the call that is then awaited.\<close>

definition upload_loop :: "RecordingManager \<Rightarrow> RecordingManager \<times> rm_await option" where
  "upload_loop s =
     (case uploadQueue s of
        [] \<Rightarrow> (s\<lparr>processing := False\<rparr>, None)
      | upload_t # rest \<Rightarrow>
          (s\<lparr>uploadQueue := rest\<rparr>, Some (Uploading upload_t)))"

text \<open>The pause of line 155, in milliseconds, for the incremented counter.\<close>

definition uploadRetryDelay :: "nat \<Rightarrow> nat" where
  "uploadRetryDelay n = 5000 * n"

text \<open>
  Lines 149-159, when the awaited promise has settled: \<open>ok\<close> tells whether it resolved.
  On success the loop goes on to its test; the catch block increments \<open>attempts\<close> and either
  pushes the task and waits, or drops it and goes on.
\<close>

definition upload_settled ::
  "bool \<Rightarrow> upload_task \<Rightarrow> RecordingManager \<Rightarrow> RecordingManager \<times> rm_await option" where
  "upload_settled ok upload_t s =
     (if ok then upload_loop s
      else (let upload' = upload_t\<lparr>attempts := Suc (attempts upload_t)\<rparr> in
            if attempts upload' < maxAttempts upload'
            then (s\<lparr>uploadQueue := uploadQueue s @ [upload']\<rparr>,
                  Some (BackingOff (now s + uploadRetryDelay (attempts upload'))))
            else upload_loop s))"

text \<open>
  Lines 138-142: the guard of processUploadQueue and the start of its loop, up to the first
  await (or the return).
\<close>

definition processUploadQueue_enter :: "RecordingManager \<Rightarrow> RecordingManager \<times> rm_await option" where
  "processUploadQueue_enter s =
     (if processing s \<or> uploadQueue s = [] then (s, None)
      else upload_loop (s\<lparr>processing := True\<rparr>))"

definition new_upload :: "string \<Rightarrow> connection \<Rightarrow> string \<Rightarrow> upload_task" where
  "new_upload path conn sid =
     \<lparr>attempts = 0, maxAttempts = 3, filePath = path, connection = conn, sessionId = sid\<rparr>"

definition queueForUpload_push ::
  "string \<Rightarrow> connection \<Rightarrow> string \<Rightarrow> RecordingManager \<Rightarrow> RecordingManager" where
  "queueForUpload_push path conn sid s = s\<lparr>uploadQueue := uploadQueue s @ [new_upload path conn sid]\<rparr>"

text \<open>
  \<open>task_weight\<close> bounds the attempts a task can still take; the sum over the queue
  decreases with every attempt, which is why the loop ends.
\<close>

definition task_weight :: "'a retry_task_scheme \<Rightarrow> nat" where
  "task_weight t = Suc (maxAttempts t - attempts t)"

definition queue_weight :: "'a retry_task_scheme list \<Rightarrow> nat" where
  "queue_weight q = sum_list (map task_weight q)"

fun upload_rank :: "RecordingManager \<times> rm_await option \<Rightarrow> nat" where
  "upload_rank (s, None) = 0"
| "upload_rank (s, Some (Uploading u)) = 2 * queue_weight (uploadQueue s) + 2 * task_weight u"
| "upload_rank (s, Some (BackingOff t)) = 2 * queue_weight (uploadQueue s) + 1"

lemma createRetryWrapper_preserves:
  assumes "\<And>s r s'. fn s = (r, s') \<Longrightarrow> g s' = g s"
    and "\<And>d s. g (sleep d s) = g s"
    and "createRetryWrapper fn m b a s = (r, s')"
  shows "g s' = g s"
  using assms
proof (induction fn m b a s arbitrary: r s' rule: createRetryWrapper.induct)
  case (1 fn maxRetries baseDelay attempt s)
  note fn_keeps = "1.prems"(1) and sleep_keeps = "1.prems"(2) and run = "1.prems"(3)
  show ?case
  proof (cases "attempt \<le> maxRetries")
    case False
    with run show ?thesis by (simp add: createRetryWrapper.simps)
  next
    case le: True
    obtain r1 s1 where f: "fn s = (r1, s1)" by (cases "fn s")
    have q1: "g s1 = g s" using fn_keeps f by blast
    show ?thesis
    proof (cases r1)
      case (Inr v)
      with le f run q1 show ?thesis by (simp add: createRetryWrapper.simps[of fn])
    next
      case (Inl err)
      show ?thesis
      proof (cases "attempt = maxRetries")
        case True
        with le f Inl run q1 show ?thesis by (simp add: createRetryWrapper.simps[of fn])
      next
        case False
        with le f Inl run
        have next_run: "createRetryWrapper fn maxRetries baseDelay (Suc attempt)
                (sleep (baseDelay * 2 ^ attempt) s1) = (r, s')"
          by (simp add: createRetryWrapper.simps[of fn maxRetries baseDelay attempt])
        have "g s' = g (sleep (baseDelay * 2 ^ attempt) s1)"
          by (rule "1.IH"[OF le f[symmetric] Inl False fn_keeps sleep_keeps next_run])
        with q1 sleep_keeps show ?thesis by simp
      qed
    qed
  qed
qed

lemma performUpload_queue: "performUpload e b k p s = (r, s') \<Longrightarrow> uploadQueue s' = uploadQueue s"
  by (auto simp: performUpload_def multipartUpload_def s3_upload_call_def Let_def
      split: option.splits if_splits)

lemma sleep_queue: "uploadQueue (sleep d s) = uploadQueue s"
  by (simp add: sleep_def)

lemma upload_queue: "upload cfg e p c s = (r, s') \<Longrightarrow> uploadQueue s' = uploadQueue s"
proof -
  assume run: "upload cfg e p c s = (r, s')"
  have keep: "\<And>b k. createRetryWrapper (performUpload e b k p) 3 2000 0 s = (x, y) \<Longrightarrow>
      uploadQueue y = uploadQueue s" for x :: "error + unit option" and y
    by (rule createRetryWrapper_preserves[where g = uploadQueue and fn = "performUpload e b k p" for b k,
          OF performUpload_queue sleep_queue])
  from run show ?thesis
    by (auto simp: upload_def Let_def split: if_splits sum.splits prod.splits dest: keep)
qed

lemma uploadRecording_queue:
  "uploadRecording cfg e u s = (r, s') \<Longrightarrow> uploadQueue s' = uploadQueue s"
  by (auto simp: uploadRecording_def unlink_def Let_def
      split: option.splits prod.splits sum.splits if_splits dest: upload_queue)

function upload_run ::
  "rm_config \<Rightarrow> s3_env \<Rightarrow> RecordingManager \<times> rm_await option \<Rightarrow> RecordingManager" where
  "upload_run cfg e (s, None) = s"
| "upload_run cfg e (s, Some (Uploading u)) =
     (case uploadRecording cfg e u s of
        (r, s') \<Rightarrow> upload_run cfg e (upload_settled (\<not> isl r) u s'))"
| "upload_run cfg e (s, Some (BackingOff t)) =
     upload_run cfg e (upload_loop (s\<lparr>now := max t (now s)\<rparr>))"
  by pat_completeness auto

lemma upload_loop_rank:
  "upload_rank (upload_loop s) \<le> 2 * queue_weight (uploadQueue s)"
  by (cases "uploadQueue s") (auto simp: upload_loop_def queue_weight_def)

lemma upload_settled_rank:
  "upload_rank (upload_settled ok u s) < 2 * queue_weight (uploadQueue s) + 2 * task_weight u"
proof -
  have w: "0 < task_weight u" by (simp add: task_weight_def)
  have loop: "upload_rank (upload_loop s) < 2 * queue_weight (uploadQueue s) + 2 * task_weight u"
    using upload_loop_rank[of s] w by linarith
  show ?thesis
  proof (cases "\<not> ok \<and> Suc (attempts u) < maxAttempts u")
    case True
    then have "task_weight (u\<lparr>attempts := Suc (attempts u)\<rparr>) < task_weight u"
      by (simp add: task_weight_def) arith
    with True show ?thesis
      by (simp add: upload_settled_def Let_def queue_weight_def)
  next
    case False
    then show ?thesis using loop by (auto simp: upload_settled_def Let_def)
  qed
qed

termination upload_run
proof (relation "measure (\<lambda>(cfg, e, p). upload_rank p)")
  show "wf (measure (\<lambda>(cfg, e, p). upload_rank p))" by simp
next
  fix cfg e s u r s'
  assume "(r, s') = uploadRecording cfg e u s"
  then have "uploadQueue s' = uploadQueue s"
    using uploadRecording_queue[of cfg e u s r s'] by simp
  then show "((cfg, e, upload_settled (\<not> isl r) u s'), cfg, e, s, Some (Uploading u))
               \<in> measure (\<lambda>(cfg, e, p). upload_rank p)"
    using upload_settled_rank[of "\<not> isl r" u s'] by simp
next
  fix cfg e s t
  show "((cfg, e, upload_loop (s\<lparr>now := max t (now s)\<rparr>)), cfg, e, s, Some (BackingOff t))
          \<in> measure (\<lambda>(cfg, e, p). upload_rank p)"
    using upload_loop_rank[of "s\<lparr>now := max t (now s)\<rparr>"] by simp
qed

declare upload_run.simps [simp del]

definition processUploadQueue :: "rm_config \<Rightarrow> s3_env \<Rightarrow> RecordingManager \<Rightarrow> RecordingManager" where
  "processUploadQueue cfg e s = upload_run cfg e (processUploadQueue_enter s)"

section \<open>WebhookManager: the notification queue (part_002:265-314, 373-384)\<close>

record 'p webhook_task = retry_task +
  payload :: 'p
  nextRetry :: nat

text \<open>
  The promise of \<^verbatim>\<open>axios(options)\<close> either rejects or resolves with a response that has
  a status. \<open>http k\<close> is the outcome of the \<open>k\<close>-th call, \<open>http_ms k\<close> its duration.
\<close>

datatype http_result = Rejected | Response nat

record http_env =
  http :: "nat \<Rightarrow> http_result"
  http_ms :: "nat \<Rightarrow> nat"

text \<open>
  The fields \<open>queue\<close>, \<open>processing\<close> and \<open>enabled\<close> of the class, the clock, and
  \<open>http_calls\<close>, the number of calls of axios so far (jest's call count of the mock).
\<close>

record 'p WebhookManager = drain_state +
  queue :: "'p webhook_task list"
  enabled :: bool
  http_calls :: nat

text \<open>
  sendWebhook: one POST. The request options (URL, headers, credentials) do not change
  which branch is taken, so the model keeps the outcome only.
\<close>

definition sendWebhook ::
  "http_env \<Rightarrow> 'p \<Rightarrow> 'p WebhookManager \<Rightarrow> (error + unit) \<times> 'p WebhookManager" where
  "sendWebhook e pl s =
     (let k = http_calls s;
          s' = s\<lparr>now := now s + http_ms e k, http_calls := Suc k\<rparr>
      in (case http e k of
            Rejected \<Rightarrow> (Inl NetworkError, s')
          | Response status \<Rightarrow>
              if status < 200 \<or> status \<ge> 300 then (Inl (HttpStatus status), s')
              else (Inr (), s')))"

text \<open>
  Where the loop of processQueue waits: for the promise of \<^verbatim>\<open>sendWebhook(webhook.payload)\<close>
  (line 293), or for the one-second timer of line 288, which fires at the given time.
\<close>

datatype 'p wm_await = Sending "'p webhook_task" | Pausing nat

text \<open>
  Lines 283-293: the loop test and \<^verbatim>\<open>shift()\<close>; a task whose \<open>nextRetry\<close> lies in the future
  is put back with \<^verbatim>\<open>unshift\<close>, at the head, and the loop waits a second.
\<close>

definition queue_loop :: "'p WebhookManager \<Rightarrow> 'p WebhookManager \<times> 'p wm_await option" where
  "queue_loop s =
     (case queue s of
        [] \<Rightarrow> (s\<lparr>processing := False\<rparr>, None)
      | webhook # rest \<Rightarrow>
          if nextRetry webhook > now s
          then (s\<lparr>queue := webhook # rest\<rparr>, Some (Pausing (now s + 1000)))
          else (s\<lparr>queue := rest\<rparr>, Some (Sending webhook)))"

text \<open>Lines 301-304.\<close>

definition backoffDelay :: "nat \<Rightarrow> nat" where
  "backoffDelay n = min (1000 * 2 ^ n) 30000"

text \<open>
  Lines 294-311, when the awaited promise has settled: the catch block increments
  \<open>attempts\<close> and either sets \<open>nextRetry\<close> and pushes the task, or drops it; in every case the
  loop goes on to its test without waiting.
\<close>

definition webhook_settled ::
  "bool \<Rightarrow> 'p webhook_task \<Rightarrow> 'p WebhookManager \<Rightarrow> 'p WebhookManager \<times> 'p wm_await option" where
  "webhook_settled ok webhook s =
     (if ok then queue_loop s
      else (let webhook' = webhook\<lparr>attempts := Suc (attempts webhook)\<rparr> in
            if attempts webhook' < maxAttempts webhook'
            then queue_loop
                   (s\<lparr>queue := queue s @
                        [webhook'\<lparr>nextRetry := now s + backoffDelay (attempts webhook')\<rparr>]\<rparr>)
            else queue_loop s))"

text \<open>Lines 277-281: the guard of processQueue and the start of its loop.\<close>

definition processQueue_enter :: "'p WebhookManager \<Rightarrow> 'p WebhookManager \<times> 'p wm_await option" where
  "processQueue_enter s =
     (if processing s \<or> queue s = [] then (s, None)
      else queue_loop (s\<lparr>processing := True\<rparr>))"

definition new_webhook :: "'p \<Rightarrow> nat \<Rightarrow> 'p webhook_task" where
  "new_webhook pl t = \<lparr>attempts = 0, maxAttempts = 3, payload = pl, nextRetry = t\<rparr>"

definition queueWebhook_push :: "'p \<Rightarrow> 'p WebhookManager \<Rightarrow> 'p WebhookManager" where
  "queueWebhook_push pl s = s\<lparr>queue := queue s @ [new_webhook pl (now s)]\<rparr>"

text \<open>
  The rank that decreases along the loop: first the attempts still possible, then, while
  the loop waits, the time the head task still has to wait after the timer has fired.
\<close>

fun queue_rank :: "'p WebhookManager \<times> 'p wm_await option \<Rightarrow> nat \<times> nat" where
  "queue_rank (s, None) = (0, 0)"
| "queue_rank (s, Some (Sending w)) = (queue_weight (queue s) + task_weight w, 0)"
| "queue_rank (s, Some (Pausing t)) =
     (queue_weight (queue s),
      Suc (case queue s of [] \<Rightarrow> 0 | w # _ \<Rightarrow> nextRetry w - max t (now s)))"

function queue_run :: "http_env \<Rightarrow> 'p WebhookManager \<times> 'p wm_await option \<Rightarrow> 'p WebhookManager" where
  "queue_run e (s, None) = s"
| "queue_run e (s, Some (Sending w)) =
     (case sendWebhook e (payload w) s of
        (r, s') \<Rightarrow> queue_run e (webhook_settled (\<not> isl r) w s'))"
| "queue_run e (s, Some (Pausing t)) = queue_run e (queue_loop (s\<lparr>now := max t (now s)\<rparr>))"
  by pat_completeness auto

lemma sendWebhook_queue: "sendWebhook e pl s = (r, s') \<Longrightarrow> queue s' = queue s"
  by (auto simp: sendWebhook_def Let_def split: http_result.splits if_splits)

lemma queue_loop_rank:
  "fst (queue_rank (queue_loop s)) \<le> queue_weight (queue s)"
  by (cases "queue s") (auto simp: queue_loop_def queue_weight_def)

lemma webhook_settled_rank:
  "fst (queue_rank (webhook_settled ok w s)) < queue_weight (queue s) + task_weight w"
proof -
  have pos: "0 < task_weight w" by (simp add: task_weight_def)
  show ?thesis
  proof (cases "\<not> ok \<and> Suc (attempts w) < maxAttempts w")
    case True
    let ?w' = "w\<lparr>attempts := Suc (attempts w), nextRetry := now s + backoffDelay (Suc (attempts w))\<rparr>"
    have less: "task_weight ?w' < task_weight w"
      using True by (simp add: task_weight_def) arith
    have "fst (queue_rank (queue_loop (s\<lparr>queue := queue s @ [?w']\<rparr>)))
            \<le> queue_weight (queue s @ [?w'])"
      using queue_loop_rank[of "s\<lparr>queue := queue s @ [?w']\<rparr>"] by simp
    also have "\<dots> < queue_weight (queue s) + task_weight w"
      using less by (simp add: queue_weight_def)
    finally show ?thesis using True by (simp add: webhook_settled_def Let_def)
  next
    case False
    then have "webhook_settled ok w s = queue_loop s"
      by (auto simp: webhook_settled_def Let_def)
    then show ?thesis using queue_loop_rank[of s] pos by simp
  qed
qed

lemma queue_loop_after_pause:
  "(queue_rank (queue_loop (s\<lparr>now := max t (now s)\<rparr>)), queue_rank (s, Some (Pausing t)))
     \<in> less_than <*lex*> less_than"
proof (cases "queue s")
  case Nil
  then show ?thesis by (simp add: queue_loop_def queue_weight_def)
next
  case (Cons w rest)
  then show ?thesis
    by (auto simp: queue_loop_def queue_weight_def)
qed

termination queue_run
proof (relation "inv_image (less_than <*lex*> less_than) (\<lambda>(e, p). queue_rank p)")
  show "wf (inv_image (less_than <*lex*> less_than)
          (\<lambda>(e :: http_env, p :: 'p WebhookManager \<times> 'p wm_await option). queue_rank p))"
    by (intro wf_inv_image wf_lex_prod wf_less_than)
next
  fix e :: http_env and s s' :: "'p WebhookManager" and w :: "'p webhook_task" and r
  assume "(r, s') = sendWebhook e (payload w) s"
  then have "queue s' = queue s" using sendWebhook_queue[of e "payload w" s r s'] by simp
  then have "fst (queue_rank (webhook_settled (\<not> isl r) w s'))
               < fst (queue_rank (s, Some (Sending w)))"
    using webhook_settled_rank[of "\<not> isl r" w s'] by simp
  then show "((e, webhook_settled (\<not> isl r) w s'), e, s, Some (Sending w))
               \<in> inv_image (less_than <*lex*> less_than) (\<lambda>(e, p). queue_rank p)"
    by (cases "queue_rank (webhook_settled (\<not> isl r) w s')") simp
next
  fix e :: http_env and s :: "'p WebhookManager" and t
  show "((e, queue_loop (s\<lparr>now := max t (now s)\<rparr>)), e, s, Some (Pausing t))
          \<in> inv_image (less_than <*lex*> less_than) (\<lambda>(e, p). queue_rank p)"
    using queue_loop_after_pause[where s = s and t = t] by simp
qed

declare queue_run.simps [simp del]

definition processQueue :: "http_env \<Rightarrow> 'p WebhookManager \<Rightarrow> 'p WebhookManager" where
  "processQueue e s = queue_run e (processQueue_enter s)"

definition queueWebhook :: "http_env \<Rightarrow> 'p \<Rightarrow> 'p WebhookManager \<Rightarrow> 'p WebhookManager" where
  "queueWebhook e pl s = processQueue e (queueWebhook_push pl s)"

definition queueForUpload ::
  "rm_config \<Rightarrow> s3_env \<Rightarrow> string \<Rightarrow> connection \<Rightarrow> string \<Rightarrow> RecordingManager \<Rightarrow> RecordingManager" where
  "queueForUpload cfg e path conn sid s = processUploadQueue cfg e (queueForUpload_push path conn sid s)"

text \<open>The constructors: an empty queue and a cleared flag, at clock \<open>t0\<close>.\<close>

definition new_WebhookManager :: "bool \<Rightarrow> nat \<Rightarrow> 'p WebhookManager" where
  "new_WebhookManager en t0 =
     \<lparr>processing = False, now = t0, queue = [], enabled = en, http_calls = 0\<rparr>"

definition new_RecordingManager :: "(string \<Rightarrow> nat option) \<Rightarrow> nat \<Rightarrow> RecordingManager" where
  "new_RecordingManager fs t0 =
     \<lparr>processing = False, now = t0, uploadQueue = [], files = fs,
      undeletable = (\<lambda>_. False), s3_calls = 0, upload_attempts = 0, transform_calls = 0\<rparr>"


definition http_up :: http_env where
  "http_up = \<lparr>http = (\<lambda>_. Response 200), http_ms = (\<lambda>_. 0)\<rparr>"

definition s3_down :: s3_env where
  "s3_down = \<lparr>s3_ok = (\<lambda>_. False), s3_ms = (\<lambda>_. 0)\<rparr>"

section \<open>RecordingManager: the compression stage (recording-manager.js:69-123)\<close>










section \<open>Utils.sanitizeWebhookPayload on JSON values (utils.js:41-71)\<close>

text \<open>
  The values \<^verbatim>\<open>JSON.stringify\<close> can write. An object is the list of its own enumerable
  properties in the order of \<^verbatim>\<open>Object.keys\<close>. Strings are lists of 8-bit characters, so
  property names are ASCII here.
\<close>

datatype json =
    JNull | JBool bool | JNum int | JStr string
  | JArr "json list"
  | JObj "(string \<times> json) list"

definition sensitiveFields :: "string list" where
  "sensitiveFields =
     [''password'', ''private-key'', ''secret'', ''token'', ''passphrase'',
      ''secret_key'', ''access_key'', ''api_key'']"

text \<open>\<^verbatim>\<open>String.prototype.toLowerCase\<close> on ASCII: the 26 capital letters change.\<close>

definition lower_char :: "char \<Rightarrow> char" where
  "lower_char c =
     (case map_of (zip ''ABCDEFGHIJKLMNOPQRSTUVWXYZ'' ''abcdefghijklmnopqrstuvwxyz'') c of
        Some l \<Rightarrow> l | None \<Rightarrow> c)"

definition toLowerCase :: "string \<Rightarrow> string" where
  "toLowerCase s = map lower_char s"

text \<open>\<^verbatim>\<open>s.includes(sub)\<close>: \<open>sub\<close> occurs in \<open>s\<close> as a contiguous substring.\<close>

fun str_includes :: "string \<Rightarrow> string \<Rightarrow> bool" where
  "str_includes [] sub = (sub = [])"
| "str_includes (c # cs) sub = (take (length sub) (c # cs) = sub \<or> str_includes cs sub)"

text \<open>Line 60: \<^verbatim>\<open>sensitiveFields.some(field => key.toLowerCase().includes(field))\<close>.\<close>

definition is_sensitive :: "string \<Rightarrow> bool" where
  "is_sensitive key = list_ex (\<lambda>field. str_includes (toLowerCase key) field) sensitiveFields"

definition REDACTED :: json where
  "REDACTED = JStr ''[REDACTED]''"

text \<open>
  removeSensitiveFields (lines 57-67). The keys of an array are its indices, written in
  digits, which no entry of \<open>sensitiveFields\<close> matches; so for an array only the recursion
  into the elements remains. On a value that is not an object the function does nothing.
\<close>

fun removeSensitiveFields :: "json \<Rightarrow> json" where
  "removeSensitiveFields (JObj kvs) =
     JObj (map (\<lambda>(key, v). (key, if is_sensitive key then REDACTED else removeSensitiveFields v)) kvs)"
| "removeSensitiveFields (JArr xs) = JArr (map removeSensitiveFields xs)"
| "removeSensitiveFields v = v"

text \<open>
  Line 42 returns what is falsy or not of type 'object' as it is; that leaves arrays and
  objects. Line 55 copies through JSON text; on a value of type \<open>json\<close> that copy is the
  value itself (the copy matters for the caller's object, see the store model below).
\<close>

fun is_object :: "json \<Rightarrow> bool" where
  "is_object (JObj kvs) = True"
| "is_object (JArr xs) = True"
| "is_object v = False"

definition sanitizeWebhookPayload :: "json \<Rightarrow> json" where
  "sanitizeWebhookPayload data = (if \<not> is_object data then data else removeSensitiveFields data)"

text \<open>Reading a value at a path of property names and array indices.\<close>

datatype seg = Key string | Idx nat

fun at_path :: "json \<Rightarrow> seg list \<Rightarrow> json option" where
  "at_path v [] = Some v"
| "at_path (JObj kvs) (Key k # p) = (case map_of kvs k of None \<Rightarrow> None | Some v \<Rightarrow> at_path v p)"
| "at_path (JArr xs) (Idx i # p) = (if i < length xs then at_path (xs ! i) p else None)"
| "at_path v (sg # p) = None"

text \<open>A path none of whose property names is on the deny-list.\<close>

fun clear_path :: "seg list \<Rightarrow> bool" where
  "clear_path [] = True"
| "clear_path (Key k # p) = (\<not> is_sensitive k \<and> clear_path p)"
| "clear_path (Idx i # p) = clear_path p"

text \<open>
  Following the claim's words: the deny-list as the specification names it, where a key
  matches when its lower-cased name, with the separators \<open>_\<close> and \<open>-\<close> read as spaces,
  contains one of the names. This is the reading under which the specification's own
  example key \<open>api_key\<close> matches.
\<close>

definition spec_deny_list :: "string list" where
  "spec_deny_list = [''password'', ''secret'', ''token'', ''api key'', ''private key'', ''passphrase'']"

definition spec_matches :: "string \<Rightarrow> bool" where
  "spec_matches key =
     list_ex (\<lambda>name. str_includes (map (\<lambda>c. if c = CHR ''_'' \<or> c = CHR ''-'' then CHR '' '' else c)
                                   (toLowerCase key)) name)
       spec_deny_list"

text \<open>The example of the specification.\<close>

definition example_payload :: json where
  "example_payload =
     JObj [(''user'', JStr ''a''), (''meta'', JObj [(''api_key'', JStr ''x''), (''id'', JNum 1)])]"

definition nested_in_token :: json where
  "nested_in_token = JObj [(''token'', JObj [(''id'', JNum 1)])]"

section \<open>sanitizeWebhookPayload on objects in a store (utils.js:41-71, part_002:222-233)\<close>

text \<open>
  Whether the caller's object is modified depends on which objects are shared, so here
  objects live in a store: a value is a primitive or a reference, the store is the list
  of the objects allocated so far, and the address of an object is its position.
  Allocation appends; assignment to a property replaces the object at an address.
\<close>

datatype jsval = VNull | VBool bool | VNum int | VStr string | VRef nat

datatype hobj = HObj "(string \<times> jsval) list" | HArr "jsval list"

type_synonym store = "hobj list"

text \<open>
  \<^verbatim>\<open>JSON.stringify\<close>: follows the references down to the given depth. \<open>None\<close> stands for the
  TypeError on a circular structure (which no depth serialises).
\<close>

fun stringify :: "nat \<Rightarrow> store \<Rightarrow> jsval \<Rightarrow> json option" where
  "stringify n h VNull = Some JNull"
| "stringify n h (VBool b) = Some (JBool b)"
| "stringify n h (VNum i) = Some (JNum i)"
| "stringify n h (VStr s) = Some (JStr s)"
| "stringify 0 h (VRef a) = None"
| "stringify (Suc n) h (VRef a) =
     (if a < length h then
        (case h ! a of
           HObj kvs \<Rightarrow>
             map_option JObj (those (map (\<lambda>(k, v). map_option (Pair k) (stringify n h v)) kvs))
         | HArr vs \<Rightarrow> map_option JArr (those (map (stringify n h) vs)))
      else None)"

text \<open>\<^verbatim>\<open>JSON.parse\<close>: builds new objects, the parts before the whole.\<close>

fun parse :: "json \<Rightarrow> store \<Rightarrow> jsval \<times> store" where
  "parse JNull h = (VNull, h)"
| "parse (JBool b) h = (VBool b, h)"
| "parse (JNum i) h = (VNum i, h)"
| "parse (JStr s) h = (VStr s, h)"
| "parse (JArr xs) h =
     (let (vs, h1) = fold (\<lambda>x (vs, h). let (v, h') = parse x h in (vs @ [v], h')) xs ([], h)
      in (VRef (length h1), h1 @ [HArr vs]))"
| "parse (JObj kvs) h =
     (let (fs, h1) = fold (\<lambda>(k, x) (fs, h). let (v, h') = parse x h in (fs @ [(k, v)], h')) kvs ([], h)
      in (VRef (length h1), h1 @ [HObj fs]))"

text \<open>\<^verbatim>\<open>obj[key] = v\<close> on an existing property, and \<^verbatim>\<open>obj[key]\<close>.\<close>

definition set_field :: "nat \<Rightarrow> string \<Rightarrow> jsval \<Rightarrow> store \<Rightarrow> store" where
  "set_field a key v h =
     (if a < length h then
        (case h ! a of
           HObj kvs \<Rightarrow> h[a := HObj (map (\<lambda>(k, x). if k = key then (k, v) else (k, x)) kvs)]
         | HArr vs \<Rightarrow> h)
      else h)"

definition get_field :: "nat \<Rightarrow> string \<Rightarrow> store \<Rightarrow> jsval option" where
  "get_field a key h =
     (if a < length h then (case h ! a of HObj kvs \<Rightarrow> map_of kvs key | HArr vs \<Rightarrow> None) else None)"

definition get_index :: "nat \<Rightarrow> nat \<Rightarrow> store \<Rightarrow> jsval option" where
  "get_index a i h =
     (if a < length h then
        (case h ! a of HArr vs \<Rightarrow> if i < length vs then Some (vs ! i) else None | HObj kvs \<Rightarrow> None)
      else None)"

text \<open>
  removeSensitiveFields (lines 57-67) as it runs: \<^verbatim>\<open>Object.keys(obj)\<close> is taken once, then
  each key is handled in the store as it then is. The first argument bounds the depth of
  the recursion, and \<open>False\<close> reports that the bound was hit (the call stack of the
  engine is finite).
\<close>

fun removeSensitiveFields_in :: "nat \<Rightarrow> jsval \<Rightarrow> store \<Rightarrow> bool \<times> store" where
  "removeSensitiveFields_in 0 (VRef a) h = (False, h)"
| "removeSensitiveFields_in (Suc n) (VRef a) h =
     (if a < length h then
        (case h ! a of
           HObj kvs \<Rightarrow>
             fold (\<lambda>key (ok, h).
                     if \<not> ok then (ok, h)
                     else if is_sensitive key then (True, set_field a key (VStr ''[REDACTED]'') h)
                     else (case get_field a key h of
                             Some (VRef b) \<Rightarrow> removeSensitiveFields_in n (VRef b) h
                           | _ \<Rightarrow> (True, h)))
                  (map fst kvs) (True, h)
         | HArr vs \<Rightarrow>
             fold (\<lambda>i (ok, h).
                     if \<not> ok then (ok, h)
                     else (case get_index a i h of
                             Some (VRef b) \<Rightarrow> removeSensitiveFields_in n (VRef b) h
                           | _ \<Rightarrow> (True, h)))
                  [0..<length vs] (True, h))
      else (True, h))"
| "removeSensitiveFields_in n v h = (True, h)"

datatype js_exception = NotSerializable | StackExhausted

text \<open>
  sanitizeWebhookPayload: what is falsy or not of type 'object' (every value but a
  reference) is returned as it is; otherwise the argument is copied through JSON text and
  the copy is redacted in place.
\<close>

definition sanitizeWebhookPayload_in ::
  "nat \<Rightarrow> jsval \<Rightarrow> store \<Rightarrow> (js_exception + jsval) \<times> store" where
  "sanitizeWebhookPayload_in n data h =
     (case data of
        VRef a \<Rightarrow>
          (case stringify n h data of
             None \<Rightarrow> (Inl NotSerializable, h)
           | Some text \<Rightarrow>
               (let (sanitized, h1) = parse text h in
                case removeSensitiveFields_in n sanitized h1 of
                  (True, h2) \<Rightarrow> (Inr sanitized, h2)
                | (False, h2) \<Rightarrow> (Inl StackExhausted, h2)))
      | _ \<Rightarrow> (Inr data, h))"

text \<open>
  sendSessionStarted (part_002:222-233) up to the call of queueWebhook: nothing happens when
  the manager is not enabled; \<open>meta\<close> is \<^verbatim>\<open>connection.token?.meta\<close> (\<open>None\<close> when undefined), and
  \<^verbatim>\<open>|| {}\<close> makes a new empty object of a falsy one. The result is the reference to the
  new payload object, which queueWebhook then stores.
\<close>

fun truthy :: "jsval \<Rightarrow> bool" where
  "truthy VNull = False"
| "truthy (VBool b) = b"
| "truthy (VNum i) = (i \<noteq> 0)"
| "truthy (VStr s) = (s \<noteq> [])"
| "truthy (VRef a) = True"

definition sendSessionStarted ::
  "bool \<Rightarrow> nat \<Rightarrow> string \<Rightarrow> string \<Rightarrow> jsval option \<Rightarrow> store \<Rightarrow>
   (js_exception + jsval option) \<times> store" where
  "sendSessionStarted isEnabled n timestamp sid meta h =
     (if \<not> isEnabled then (Inr None, h)
      else
        let (m, h0) = (case meta of
                         Some v \<Rightarrow> if truthy v then (v, h) else (VRef (length h), h @ [HObj []])
                       | None \<Rightarrow> (VRef (length h), h @ [HObj []]))
        in case sanitizeWebhookPayload_in n m h0 of
             (Inl err, h1) \<Rightarrow> (Inl err, h1)
           | (Inr sanitized, h1) \<Rightarrow>
               (Inr (Some (VRef (length h1))),
                h1 @ [HObj [(''event'', VStr ''session_started''), (''timestamp'', VStr timestamp),
                            (''session_id'', VStr sid), (''token_meta'', sanitized)]]))"

text \<open>
  Well-formedness: from address \<open>base\<close> on, objects refer only to objects from \<open>base\<close> on
  that exist; a value is in range likewise. With \<open>base = 0\<close> the store has no dangling
  reference.
\<close>

fun refs_of :: "hobj \<Rightarrow> nat set" where
  "refs_of (HObj kvs) = {a. VRef a \<in> snd ` set kvs}"
| "refs_of (HArr vs) = {a. VRef a \<in> set vs}"

definition closed_from :: "nat \<Rightarrow> store \<Rightarrow> bool" where
  "closed_from base h =
     (\<forall>a. base \<le> a \<and> a < length h \<longrightarrow> (\<forall>b \<in> refs_of (h ! a). base \<le> b \<and> b < length h))"

fun in_range :: "nat \<Rightarrow> store \<Rightarrow> jsval \<Rightarrow> bool" where
  "in_range base h (VRef a) = (base \<le> a \<and> a < length h)"
| "in_range base h v = True"

text \<open>
  What a call may do to a store: \<open>parsed h r\<close> says that the result \<open>r\<close> of a call in store
  \<open>h\<close> left \<open>h\<close> as a prefix and returned a value made of new objects only; \<open>frame B h h'\<close>
  that \<open>h'\<close> has the objects of \<open>h\<close>, those below \<open>B\<close> unchanged.
\<close>

definition parsed :: "store \<Rightarrow> jsval \<times> store \<Rightarrow> bool" where
  "parsed h r = (take (length h) (snd r) = h \<and> length h \<le> length (snd r) \<and>
                 closed_from (length h) (snd r) \<and> in_range (length h) (snd r) (fst r))"

definition frame :: "nat \<Rightarrow> store \<Rightarrow> store \<Rightarrow> bool" where
  "frame B h h' = (length h' = length h \<and> take B h' = take B h \<and> closed_from B h')"

text \<open>
  Depth: \<open>fits n j\<close> says that the JSON value \<open>j\<close> nests objects and arrays at most \<open>n\<close>
  deep, \<open>tree n h v\<close> that following references from \<open>v\<close> in \<open>h\<close> ends within \<open>n\<close> steps
  on every path. \<open>shrink h h'\<close>: the store \<open>h'\<close> has the objects of \<open>h\<close>, each referring to
  no object it did not refer to in \<open>h\<close>.
\<close>

fun fits :: "nat \<Rightarrow> json \<Rightarrow> bool" where
  "fits 0 (JArr xs) = False"
| "fits 0 (JObj kvs) = False"
| "fits (Suc n) (JArr xs) = list_all (fits n) xs"
| "fits (Suc n) (JObj kvs) = list_all (\<lambda>(k, x). fits n x) kvs"
| "fits n j = True"

fun tree :: "nat \<Rightarrow> store \<Rightarrow> jsval \<Rightarrow> bool" where
  "tree 0 h (VRef a) = False"
| "tree (Suc n) h (VRef a) = (a < length h \<and> (\<forall>b \<in> refs_of (h ! a). tree n h (VRef b)))"
| "tree n h v = True"

definition shrink :: "store \<Rightarrow> store \<Rightarrow> bool" where
  "shrink h h' = (length h' = length h \<and> (\<forall>a < length h. refs_of (h' ! a) \<subseteq> refs_of (h ! a)))"

text \<open>
  The token metadata of the examples as objects in a store: the metadata object is at
  address 1 and holds a nested object, at address 0.
\<close>

definition meta_store :: store where
  "meta_store = [HObj [(''secret'', VStr ''s3cr3t''), (''plan'', VStr ''pro'')],
                 HObj [(''userId'', VStr ''u1''), (''api_key'', VStr ''x''), (''account'', VRef 0)]]"

definition meta_json :: json where
  "meta_json = JObj [(''userId'', JStr ''u1''), (''api_key'', JStr ''x''),
                     (''account'', JObj [(''secret'', JStr ''s3cr3t''), (''plan'', JStr ''pro'')])]"

definition meta_copy :: store where
  "meta_copy = [HObj [(''secret'', VStr ''[REDACTED]''), (''plan'', VStr ''pro'')],
                HObj [(''userId'', VStr ''u1''), (''api_key'', VStr ''[REDACTED]''), (''account'', VRef 2)]]"

section \<open>The managers under cooperative scheduling\<close>

text \<open>
  JavaScript runs one callback at a time, each up to its next \<^verbatim>\<open>await\<close>. A manager is
  therefore its fields together with the invocations of its drain procedure that are
  suspended, each at the place named by its await. Nothing in this representation limits
  how many invocations are suspended at once. An event is a call from outside, the
  passing of time, or the settling of what the \<open>i\<close>-th suspended invocation waits for;
  an event that cannot happen in a state (no such invocation, a timer before its time)
  leaves the state as it is.
\<close>

datatype 'x event =
    Enqueue 'x            \<comment> \<open>a call of queueWebhook / queueForUpload\<close>
  | Elapse nat            \<comment> \<open>the clock advances\<close>
  | Settles nat bool      \<comment> \<open>the delivery awaited by invocation \<open>i\<close> resolves (True) or rejects\<close>
  | TimerFires nat        \<comment> \<open>the timer awaited by invocation \<open>i\<close> fires\<close>

text \<open>
  A fresh invocation that reaches an await joins the suspended ones; a resumed invocation
  moves to its next await or, when it returns, leaves the list.
\<close>

definition spawn :: "'s \<times> 'a option \<Rightarrow> 'a list \<Rightarrow> 's \<times> 'a list" where
  "spawn r ls = (fst r, ls @ (case snd r of None \<Rightarrow> [] | Some a \<Rightarrow> [a]))"

definition resume :: "nat \<Rightarrow> 's \<times> 'a option \<Rightarrow> 'a list \<Rightarrow> 's \<times> 'a list" where
  "resume i r ls =
     (fst r, case snd r of None \<Rightarrow> take i ls @ drop (Suc i) ls | Some a \<Rightarrow> ls[i := a])"

fun wm_step ::
  "'p event \<Rightarrow> 'p WebhookManager \<times> 'p wm_await list \<Rightarrow> 'p WebhookManager \<times> 'p wm_await list" where
  "wm_step (Enqueue pl) (s, ls) = spawn (processQueue_enter (queueWebhook_push pl s)) ls"
| "wm_step (Elapse d) (s, ls) = (s\<lparr>now := now s + d\<rparr>, ls)"
| "wm_step (Settles i ok) (s, ls) =
     (if i < length ls then
        (case ls ! i of
           Sending w \<Rightarrow> resume i (webhook_settled ok w (s\<lparr>http_calls := Suc (http_calls s)\<rparr>)) ls
         | Pausing t \<Rightarrow> (s, ls))
      else (s, ls))"
| "wm_step (TimerFires i) (s, ls) =
     (if i < length ls then
        (case ls ! i of
           Pausing t \<Rightarrow> if t \<le> now s then resume i (queue_loop s) ls else (s, ls)
         | Sending w \<Rightarrow> (s, ls))
      else (s, ls))"

fun rm_step ::
  "(string \<times> connection \<times> string) event \<Rightarrow> RecordingManager \<times> rm_await list \<Rightarrow>
     RecordingManager \<times> rm_await list" where
  "rm_step (Enqueue (path, conn, sid)) (s, ls) =
     spawn (processUploadQueue_enter (queueForUpload_push path conn sid s)) ls"
| "rm_step (Elapse d) (s, ls) = (s\<lparr>now := now s + d\<rparr>, ls)"
| "rm_step (Settles i ok) (s, ls) =
     (if i < length ls then
        (case ls ! i of
           Uploading u \<Rightarrow>
             resume i (upload_settled ok u (s\<lparr>upload_attempts := Suc (upload_attempts s)\<rparr>)) ls
         | BackingOff t \<Rightarrow> (s, ls))
      else (s, ls))"
| "rm_step (TimerFires i) (s, ls) =
     (if i < length ls then
        (case ls ! i of
           BackingOff t \<Rightarrow> if t \<le> now s then resume i (upload_loop s) ls else (s, ls)
         | Uploading u \<Rightarrow> (s, ls))
      else (s, ls))"

text \<open>The states a manager can reach from its constructor, by the events in order.\<close>

definition wm_after :: "'p event list \<Rightarrow> nat \<Rightarrow> 'p WebhookManager \<times> 'p wm_await list" where
  "wm_after evs t0 = fold wm_step evs (new_WebhookManager True t0, [])"

definition rm_after ::
  "(string \<times> connection \<times> string) event list \<Rightarrow> (string \<Rightarrow> nat option) \<Rightarrow> nat \<Rightarrow>
     RecordingManager \<times> rm_await list" where
  "rm_after evs fs t0 = fold rm_step evs (new_RecordingManager fs t0, [])"

text \<open>
  cleanup (recording-manager.js:183-187, part_002:373-377) polls in a loop; one evaluation
  of the loop condition either lets the procedure return or makes it wait a second.
  getQueueStatus (part_002:379-384) reads the two fields.
\<close>

datatype poll = Returns | WaitsUntil nat

definition WebhookManager_cleanup :: "'p WebhookManager \<Rightarrow> poll" where
  "WebhookManager_cleanup s =
     (if length (queue s) > 0 \<and> processing s then WaitsUntil (now s + 1000) else Returns)"

definition RecordingManager_cleanup :: "RecordingManager \<Rightarrow> poll" where
  "RecordingManager_cleanup s =
     (if length (uploadQueue s) > 0 \<and> processing s then WaitsUntil (now s + 1000) else Returns)"

definition getQueueStatus :: "'p WebhookManager \<Rightarrow> nat \<times> bool" where
  "getQueueStatus s = (length (queue s), processing s)"

section \<open>Vocabulary of the statements\<close>



text \<open>The attempts a task still takes when every one of them fails.\<close>

definition attempts_left :: "'a retry_task_scheme \<Rightarrow> nat" where
  "attempts_left t = max 1 (maxAttempts t - attempts t)"

text \<open>What a delivery attempt leaves alone in the RecordingManager.\<close>

definition rm_frame :: "RecordingManager \<Rightarrow> upload_task list \<times> bool \<times> nat \<times> (string \<Rightarrow> nat option) \<times> (string \<Rightarrow> bool)" where
  "rm_frame s = (uploadQueue s, processing s, upload_attempts s, files s, undeletable s)"


definition example_conn :: connection where
  "example_conn = \<lparr>token_s3_bucket = None, token_meta = [(''userId'', ''u1'')]\<rparr>"

definition example_files :: "string \<Rightarrow> nat option" where
  "example_files = [''/data/recordings/test.guac.gz'' \<mapsto> 1024]"

definition example_rm :: RecordingManager where
  "example_rm = queueForUpload_push ''/data/recordings/test.guac.gz'' example_conn ''session-123''
                  (new_RecordingManager example_files 0)"

definition example_s3 :: s3_config where
  "example_s3 = \<lparr>initialized = True, s3_default_bucket = Some ''test-bucket'',
                  s3_key = (\<lambda>path conn. ''recordings/u1/test.guac.gz'')\<rparr>"

definition example_cfg :: rm_config where
  "example_cfg =
     \<lparr>s3Uploader = Some example_s3,
      recordings_delete_local_after_upload = True,
      recordings_compression_format = Some ''gzip''\<rparr>"


text \<open>The attempts the tasks in the queue and in flight can still take.\<close>

definition attempt_budget :: "RecordingManager \<times> rm_await option \<Rightarrow> nat" where
  "attempt_budget p =
     sum_list (map attempts_left (uploadQueue (fst p))) +
     (case snd p of Some (Uploading u) \<Rightarrow> attempts_left u | _ \<Rightarrow> 0)"

text \<open>
  What holds of a manager and its suspended drain loops in every reachable state: at most
  one loop, the flag set exactly while it exists, and every stored task below its
  ceiling.
\<close>

definition below_ceiling :: "'a retry_task_scheme list \<Rightarrow> bool" where
  "below_ceiling q = list_all (\<lambda>t. attempts t < maxAttempts t) q"

definition wm_inv :: "'p WebhookManager \<times> 'p wm_await list \<Rightarrow> bool" where
  "wm_inv p = (length (snd p) \<le> 1 \<and> (processing (fst p) = (snd p \<noteq> [])) \<and>
               below_ceiling (queue (fst p)))"

definition rm_inv :: "RecordingManager \<times> rm_await list \<Rightarrow> bool" where
  "rm_inv p = (length (snd p) \<le> 1 \<and> (processing (fst p) = (snd p \<noteq> [])) \<and>
               below_ceiling (uploadQueue (fst p)))"

text \<open>
  Reachable states for the examples: a manager whose only task is in flight, and one
  whose only task has failed once and waits in the queue.
\<close>

definition wm_busy :: "string WebhookManager \<times> string wm_await list" where
  "wm_busy = wm_after [Enqueue ''session_started''] 0"

definition wm_retrying :: "string WebhookManager \<times> string wm_await list" where
  "wm_retrying = wm_after [Enqueue ''session_started'', Settles 0 False] 0"

definition example_upload :: "string \<times> connection \<times> string" where
  "example_upload = (''/data/recordings/test.guac.gz'', example_conn, ''session-123'')"

definition rm_busy :: "RecordingManager \<times> rm_await list" where
  "rm_busy = rm_after [Enqueue example_upload] example_files 0"

definition rm_retrying :: "RecordingManager \<times> rm_await list" where
  "rm_retrying = rm_after [Enqueue example_upload, Settles 0 False] example_files 0"

definition last_try_webhook :: "string webhook_task" where
  "last_try_webhook = \<lparr>attempts = 2, maxAttempts = 3, payload = ''session_started'', nextRetry = 0\<rparr>"

definition last_try_upload :: upload_task where
  "last_try_upload = (new_upload ''/data/recordings/test.guac.gz'' example_conn ''session-123'')
                       \<lparr>attempts := 2\<rparr>"

text \<open>
  A reachable state in which the head of the notification queue is in its backoff window
  and an eligible task stands behind it: the first notification fails at time 0, a second
  one is enqueued, and a second later the timer of the loop fires.
\<close>

definition wm_blocked :: "string WebhookManager \<times> string wm_await list" where
  "wm_blocked =
     wm_after [Enqueue ''session_started'', Settles 0 False, Enqueue ''session_ended'',
               Elapse 1000, TimerFires 0] 0"

definition first_try_webhook :: "string webhook_task" where
  "first_try_webhook = new_webhook ''session_started'' 0"






section \<open>A task whose delivery always fails\<close>


lemma attempts_left_Suc:
  "Suc (attempts w) < maxAttempts w \<Longrightarrow>
     attempts_left w = Suc (attempts_left (w\<lparr>attempts := Suc (attempts w)\<rparr>))"
  by (auto simp: attempts_left_def max_def)





lemma performUpload_frame: "performUpload e b k p s = (r, s') \<Longrightarrow> rm_frame s' = rm_frame s"
  by (auto simp: performUpload_def multipartUpload_def s3_upload_call_def Let_def rm_frame_def
      split: option.splits if_splits)


lemma upload_frame: "upload cfg e p c s = (r, s') \<Longrightarrow> rm_frame s' = rm_frame s"
proof -
  assume run: "upload cfg e p c s = (r, s')"
  have keep: "createRetryWrapper (performUpload e b k p) 3 2000 0 s = (x, y) \<Longrightarrow>
      rm_frame y = rm_frame s" for x :: "error + unit option" and y b k
    by (rule createRetryWrapper_preserves[where g = rm_frame and fn = "performUpload e b k p"])
       (auto simp: sleep_def rm_frame_def dest: performUpload_frame[unfolded rm_frame_def])
  from run show ?thesis
    by (auto simp: upload_def Let_def split: if_splits sum.splits prod.splits dest: keep)
qed












section \<open>Physical uploads per delivery attempt\<close>

lemma createRetryWrapper_calls:
  assumes "\<And>s r s'. fn s = (r, s') \<Longrightarrow> s3_calls s \<le> s3_calls s' \<and> s3_calls s' \<le> Suc (s3_calls s)"
    and "createRetryWrapper fn m b a s = (r, s')"
  shows "s3_calls s \<le> s3_calls s' \<and> s3_calls s' \<le> s3_calls s + (Suc m - a)"
  using assms
proof (induction fn m b a s arbitrary: r s' rule: createRetryWrapper.induct)
  case (1 fn maxRetries baseDelay attempt s)
  note one = "1.prems"(1) and run = "1.prems"(2)
  show ?case
  proof (cases "attempt \<le> maxRetries")
    case False
    with run show ?thesis by (simp add: createRetryWrapper.simps)
  next
    case le: True
    obtain r1 s1 where f: "fn s = (r1, s1)" by (cases "fn s")
    note c1 = one[OF f]
    show ?thesis
    proof (cases r1)
      case (Inr v)
      with le f run c1 show ?thesis by (auto simp: createRetryWrapper.simps[of fn])
    next
      case (Inl err)
      show ?thesis
      proof (cases "attempt = maxRetries")
        case True
        with le f Inl run c1 show ?thesis by (auto simp: createRetryWrapper.simps[of fn])
      next
        case False
        with le f Inl run
        have next_run: "createRetryWrapper fn maxRetries baseDelay (Suc attempt)
                (sleep (baseDelay * 2 ^ attempt) s1) = (r, s')"
          by (simp add: createRetryWrapper.simps[of fn maxRetries baseDelay attempt])
        from "1.IH"[OF le f[symmetric] Inl False one next_run]
        have "s3_calls s1 \<le> s3_calls s' \<and> s3_calls s' \<le> s3_calls s1 + (Suc maxRetries - Suc attempt)"
          by (simp add: sleep_def)
        with c1 le False show ?thesis by auto
      qed
    qed
  qed
qed

lemma performUpload_calls:
  "performUpload e b k p s = (r, s') \<Longrightarrow> s3_calls s \<le> s3_calls s' \<and> s3_calls s' \<le> Suc (s3_calls s)"
  by (auto simp: performUpload_def multipartUpload_def s3_upload_call_def Let_def
      split: option.splits if_splits)

lemma upload_calls:
  assumes "upload cfg e p c s = (r, s')"
  shows "s3_calls s \<le> s3_calls s' \<and> s3_calls s' \<le> s3_calls s + 4"
proof -
  have bound: "createRetryWrapper (performUpload e b k p) 3 2000 0 s = (x, y) \<Longrightarrow>
      s3_calls s \<le> s3_calls y \<and> s3_calls y \<le> s3_calls s + 4"
    for x :: "error + unit option" and y b k
    using createRetryWrapper_calls[where fn = "performUpload e b k p" and a = 0 and m = 3 and s = s,
        OF performUpload_calls] by simp
  from assms show ?thesis
    by (auto simp: upload_def Let_def split: if_splits sum.splits prod.splits dest: bound)
qed

lemma uploadRecording_calls:
  assumes "uploadRecording cfg e u s = (r, s')"
  shows "s3_calls s \<le> s3_calls s'" and "s3_calls s' \<le> s3_calls s + 4"
    and "upload_attempts s' = Suc (upload_attempts s)"
proof -
  let ?s0 = "s\<lparr>upload_attempts := Suc (upload_attempts s)\<rparr>"
  have "s3_calls s \<le> s3_calls s' \<and> s3_calls s' \<le> s3_calls s + 4 \<and>
        upload_attempts s' = upload_attempts ?s0"
    using assms upload_calls[of _ e "filePath u" "connection u" ?s0]
      upload_frame[of _ e "filePath u" "connection u" ?s0]
    by (auto simp: uploadRecording_def Let_def unlink_def rm_frame_def
        split: option.splits prod.splits sum.splits if_splits)
  then show "s3_calls s \<le> s3_calls s'" and "s3_calls s' \<le> s3_calls s + 4"
    and "upload_attempts s' = Suc (upload_attempts s)"
    by simp_all
qed

lemma attempts_left_pos: "0 < attempts_left t"
  by (simp add: attempts_left_def)

lemma upload_loop_budget: "attempt_budget (upload_loop s) = sum_list (map attempts_left (uploadQueue s))"
  by (cases "uploadQueue s") (auto simp: upload_loop_def attempt_budget_def)

lemma upload_loop_counters:
  "s3_calls (fst (upload_loop s)) = s3_calls s" "upload_attempts (fst (upload_loop s)) = upload_attempts s"
  by (cases "uploadQueue s"; simp add: upload_loop_def)+

lemma upload_settled_budget:
  "Suc (attempt_budget (upload_settled ok u s)) \<le> sum_list (map attempts_left (uploadQueue s)) + attempts_left u"
proof (cases "\<not> ok \<and> Suc (attempts u) < maxAttempts u")
  case True
  then show ?thesis
    using attempts_left_Suc[of u]
    by (simp add: upload_settled_def Let_def attempt_budget_def)
next
  case False
  then have "upload_settled ok u s = upload_loop s" by (auto simp: upload_settled_def Let_def)
  then show ?thesis using upload_loop_budget[of s] attempts_left_pos[of u] by simp
qed

lemma upload_settled_counters:
  "s3_calls (fst (upload_settled ok u s)) = s3_calls s"
  "upload_attempts (fst (upload_settled ok u s)) = upload_attempts s"
  by (simp_all add: upload_settled_def Let_def upload_loop_counters)

lemma upload_run_counters:
  "s3_calls (fst p) \<le> s3_calls (upload_run cfg e p) \<and>
   upload_attempts (fst p) \<le> upload_attempts (upload_run cfg e p) \<and>
   s3_calls (upload_run cfg e p) - s3_calls (fst p)
     \<le> 4 * (upload_attempts (upload_run cfg e p) - upload_attempts (fst p)) \<and>
   upload_attempts (upload_run cfg e p) \<le> upload_attempts (fst p) + attempt_budget p"
proof (induction cfg e p rule: upload_run.induct)
  case (1 cfg e s)
  then show ?case by (simp add: upload_run.simps(1))
next
  case (2 cfg e s u)
  obtain r s' where ur: "uploadRecording cfg e u s = (r, s')"
    by (cases "uploadRecording cfg e u s")
  note c = uploadRecording_calls[OF ur] and q = uploadRecording_queue[OF ur]
  let ?p = "upload_settled (\<not> isl r) u s'"
  have step: "upload_run cfg e (s, Some (Uploading u)) = upload_run cfg e ?p"
    using ur by (simp add: upload_run.simps(2))
  note IH = "2.IH"[OF ur[symmetric]]
  have b: "Suc (attempt_budget ?p) \<le> attempt_budget (s, Some (Uploading u))"
    using upload_settled_budget[of "\<not> isl r" u s'] q by (simp add: attempt_budget_def)
  define R where "R = upload_run cfg e ?p"
  have "s3_calls s' \<le> s3_calls R" "Suc (upload_attempts s) \<le> upload_attempts R"
    "s3_calls R - s3_calls s' \<le> 4 * (upload_attempts R - Suc (upload_attempts s))"
    "upload_attempts R \<le> Suc (upload_attempts s) + attempt_budget ?p"
    using IH c upload_settled_counters[of "\<not> isl r" u s'] by (simp_all add: R_def)
  with c b
  have "s3_calls s \<le> s3_calls R \<and> upload_attempts s \<le> upload_attempts R \<and>
        s3_calls R - s3_calls s \<le> 4 * (upload_attempts R - upload_attempts s) \<and>
        upload_attempts R \<le> upload_attempts s + attempt_budget (s, Some (Uploading u))"
    by arith
  then show ?case unfolding step R_def by simp
next
  case (3 cfg e s t)
  let ?p = "upload_loop (s\<lparr>now := max t (now s)\<rparr>)"
  have step: "upload_run cfg e (s, Some (BackingOff t)) = upload_run cfg e ?p"
    by (simp add: upload_run.simps(3))
  have b: "attempt_budget ?p = attempt_budget (s, Some (BackingOff t))"
    using upload_loop_budget[of "s\<lparr>now := max t (now s)\<rparr>"] by (simp add: attempt_budget_def)
  show ?case
    unfolding step using "3.IH" b upload_loop_counters[of "s\<lparr>now := max t (now s)\<rparr>"] by simp
qed

lemma processUploadQueue_enter_facts:
  "s3_calls (fst (processUploadQueue_enter s)) = s3_calls s"
  "upload_attempts (fst (processUploadQueue_enter s)) = upload_attempts s"
  "attempt_budget (processUploadQueue_enter s) = sum_list (map attempts_left (uploadQueue s))"
  using upload_loop_counters[of "s\<lparr>processing := True\<rparr>"]
    upload_loop_budget[of "s\<lparr>processing := True\<rparr>"]
  by (auto simp: processUploadQueue_enter_def attempt_budget_def)

text \<open>
  C9 (as amended). The object-storage client retries by itself: one call of
  \<^verbatim>\<open>S3Uploader.upload\<close>, which is one delivery attempt of the queue, invokes
  \<^verbatim>\<open>this.s3.upload\<close> at most 4 times (the first try and up to 3 retries of
  createRetryWrapper). Draining the upload queue therefore makes at most 4 physical
  uploads per delivery attempt, and a task that enters with \<open>attempts = 0\<close> is attempted
  at most \<open>maxAttempts\<close> times (once if that is 0), hence uploaded at most
  \<open>4 * maxAttempts\<close> times.
\<close>

theorem upload_physical_tries:
  "s3_calls (snd (upload c e p conn s)) \<le> s3_calls s + 4 \<and>
   s3_calls (processUploadQueue cfg e s) - s3_calls s
     \<le> 4 * (upload_attempts (processUploadQueue cfg e s) - upload_attempts s) \<and>
   (uploadQueue s = [u] \<and> attempts u = 0 \<longrightarrow>
      upload_attempts (processUploadQueue cfg e s) \<le> upload_attempts s + max 1 (maxAttempts u) \<and>
      s3_calls (processUploadQueue cfg e s) \<le> s3_calls s + 4 * max 1 (maxAttempts u))"
proof -
  define R where "R = processUploadQueue cfg e s"
  have one: "s3_calls (snd (upload c e p conn s)) \<le> s3_calls s + 4"
    using upload_calls[of c e p conn s] by (cases "upload c e p conn s") simp
  have run: "s3_calls s \<le> s3_calls R" "upload_attempts s \<le> upload_attempts R"
    "s3_calls R - s3_calls s \<le> 4 * (upload_attempts R - upload_attempts s)"
    "upload_attempts R \<le> upload_attempts s + sum_list (map attempts_left (uploadQueue s))"
    using upload_run_counters[of "processUploadQueue_enter s" cfg e]
    by (simp_all add: R_def processUploadQueue_def processUploadQueue_enter_facts)
  have single: "upload_attempts R \<le> upload_attempts s + max 1 (maxAttempts u) \<and>
      s3_calls R \<le> s3_calls s + 4 * max 1 (maxAttempts u)"
    if "uploadQueue s = [u]" and "attempts u = 0"
  proof -
    have "upload_attempts R \<le> upload_attempts s + max 1 (maxAttempts u)"
      using run(4) that by (simp add: attempts_left_def)
    with run(1,2,3) show ?thesis by arith
  qed
  show ?thesis using one run(3) single unfolding R_def by blast
qed

theorem upload_physical_tries_witness:
  "uploadQueue example_rm = [new_upload ''/data/recordings/test.guac.gz'' example_conn ''session-123''] \<and>
   attempts (new_upload ''/data/recordings/test.guac.gz'' example_conn ''session-123'') = 0 \<and>
   upload_attempts (processUploadQueue example_cfg s3_down example_rm) \<le> 3 \<and>
   s3_calls (processUploadQueue example_cfg s3_down example_rm) \<le> 12"
proof -
  have rm: "uploadQueue example_rm = [new_upload ''/data/recordings/test.guac.gz'' example_conn ''session-123'']"
    "attempts (new_upload ''/data/recordings/test.guac.gz'' example_conn ''session-123'') = 0"
    "upload_attempts example_rm = 0" "s3_calls example_rm = 0"
    "maxAttempts (new_upload ''/data/recordings/test.guac.gz'' example_conn ''session-123'') = 3"
    by (simp_all add: example_rm_def queueForUpload_push_def new_RecordingManager_def new_upload_def)
  show ?thesis
    using upload_physical_tries[of example_s3 s3_down "''x''" example_conn example_rm example_cfg
        "new_upload ''/data/recordings/test.guac.gz'' example_conn ''session-123''"] rm
    by simp
qed

text \<open>
  The claim as stated fails: with a bucket that rejects every request, one call of
  \<^verbatim>\<open>S3Uploader.upload\<close> tries the upload 4 times, and the one task of the queue
  (\<open>maxAttempts = 3\<close>) is uploaded 12 times in its 3 delivery attempts.
\<close>

theorem upload_physical_tries_counterexample:
  "s3_calls (snd (upload example_s3 s3_down ''/data/recordings/test.guac.gz'' example_conn
       (new_RecordingManager example_files 0))) = 4 \<and>
   upload_attempts (processUploadQueue example_cfg s3_down example_rm) = 3 \<and>
   s3_calls (processUploadQueue example_cfg s3_down example_rm) = 12"
  by (simp add: processUploadQueue_def processUploadQueue_enter_def example_rm_def
      queueForUpload_push_def new_upload_def upload_loop_def upload_run.simps uploadRecording_def
      upload_settled_def uploadRetryDelay_def upload_def example_cfg_def example_s3_def s3_down_def
      example_conn_def new_RecordingManager_def example_files_def isAvailable_def getBucket_def
      createRetryWrapper.simps performUpload_def s3_upload_call_def multipartUpload_def sleep_def
      unlink_def Let_def)

section \<open>Invariants of the reachable states\<close>

lemma below_ceiling_subset: "set q' \<subseteq> set q \<Longrightarrow> below_ceiling q \<Longrightarrow> below_ceiling q'"
  by (auto simp: below_ceiling_def list_all_iff)

lemma below_ceiling_Nil [simp]: "below_ceiling []"
  by (simp add: below_ceiling_def)

lemma queue_loop_cases:
  assumes "below_ceiling (queue s)"
  shows "(queue s = [] \<and> queue_loop s = (s\<lparr>processing := False\<rparr>, None)) \<or>
   (\<exists>a s'. queue_loop s = (s', Some a) \<and> processing s' = processing s \<and>
       below_ceiling (queue s'))"
proof (cases "queue s")
  case Nil
  then show ?thesis by (simp add: queue_loop_def)
next
  case (Cons w rest)
  then have "below_ceiling rest" using assms by (simp add: below_ceiling_def)
  then show ?thesis using Cons assms by (auto simp: queue_loop_def)
qed

lemma webhook_settled_cases:
  assumes "below_ceiling (queue s)"
  shows "(\<exists>s'. webhook_settled ok w s = (s', None) \<and> \<not> processing s' \<and> queue s' = []) \<or>
   (\<exists>a s'. webhook_settled ok w s = (s', Some a) \<and> processing s' = processing s \<and>
       below_ceiling (queue s'))"
proof (cases "\<not> ok \<and> Suc (attempts w) < maxAttempts w")
  case True
  let ?w' = "w\<lparr>attempts := Suc (attempts w), nextRetry := now s + backoffDelay (Suc (attempts w))\<rparr>"
  let ?s2 = "s\<lparr>queue := queue s @ [?w']\<rparr>"
  have eq: "webhook_settled ok w s = queue_loop ?s2"
    using True by (simp add: webhook_settled_def Let_def)
  have b: "below_ceiling (queue ?s2)" using assms True by (simp add: below_ceiling_def)
  show ?thesis
    using queue_loop_cases[OF b] unfolding eq by auto
next
  case False
  then have eq: "webhook_settled ok w s = queue_loop s"
    by (auto simp: webhook_settled_def Let_def)
  show ?thesis using queue_loop_cases[OF assms] unfolding eq by auto
qed

lemma single_index:
  assumes "i < length ls" and "length ls \<le> 1"
  obtains a where "ls = [a]" and "i = 0"
  using assms by (cases ls) auto

lemma wm_step_inv:
  assumes "wm_inv (s, ls)"
  shows "wm_inv (wm_step ev (s, ls))"
proof (cases ev)
  case (Enqueue pl)
  let ?s1 = "queueWebhook_push pl s"
  have b1: "below_ceiling (queue ?s1)"
    using assms by (simp add: wm_inv_def queueWebhook_push_def new_webhook_def below_ceiling_def)
  show ?thesis
  proof (cases "processing s")
    case True
    then show ?thesis using assms b1 Enqueue
      by (simp add: wm_inv_def processQueue_enter_def spawn_def queueWebhook_push_def)
  next
    case False
    then have ls: "ls = []" using assms by (simp add: wm_inv_def)
    have enter: "processQueue_enter ?s1 = queue_loop (?s1\<lparr>processing := True\<rparr>)"
      using False by (simp add: processQueue_enter_def queueWebhook_push_def)
    have b2: "below_ceiling (queue (?s1\<lparr>processing := True\<rparr>))" using b1 by simp
    show ?thesis
      using queue_loop_cases[OF b2] ls Enqueue enter
      by (auto simp: wm_inv_def spawn_def queueWebhook_push_def)
  qed
next
  case (Elapse d)
  then show ?thesis using assms by (simp add: wm_inv_def)
next
  case (Settles i ok)
  show ?thesis
  proof (cases "i < length ls")
    case False
    then show ?thesis using assms Settles by simp
  next
    case True
    then obtain a where ls: "ls = [a]" and i: "i = 0"
      using assms by (auto simp: wm_inv_def elim: single_index)
    have p: "processing s" using assms ls by (simp add: wm_inv_def)
    show ?thesis
    proof (cases a)
      case (Pausing t)
      then show ?thesis using assms Settles ls i by simp
    next
      case (Sending w)
      let ?s1 = "s\<lparr>http_calls := Suc (http_calls s)\<rparr>"
      have b: "below_ceiling (queue ?s1)" using assms by (simp add: wm_inv_def)
      show ?thesis
        using webhook_settled_cases[OF b, of ok w] Settles ls i Sending p
        by (auto simp: wm_inv_def resume_def)
    qed
  qed
next
  case (TimerFires i)
  show ?thesis
  proof (cases "i < length ls")
    case False
    then show ?thesis using assms TimerFires by simp
  next
    case True
    then obtain a where ls: "ls = [a]" and i: "i = 0"
      using assms by (auto simp: wm_inv_def elim: single_index)
    have p: "processing s" using assms ls by (simp add: wm_inv_def)
    show ?thesis
    proof (cases a)
      case (Sending w)
      then show ?thesis using assms TimerFires ls i by simp
    next
      case (Pausing t)
      have b: "below_ceiling (queue s)" using assms by (simp add: wm_inv_def)
      show ?thesis
        using queue_loop_cases[OF b] TimerFires ls i Pausing p assms
        by (auto simp: wm_inv_def resume_def)
    qed
  qed
qed

lemma wm_fold_inv: "wm_inv p \<Longrightarrow> wm_inv (fold wm_step evs p)"
proof (induction evs arbitrary: p)
  case Nil
  then show ?case by simp
next
  case (Cons ev evs)
  obtain s ls where p: "p = (s, ls)" by (cases p)
  show ?case using Cons.IH[of "wm_step ev p"] wm_step_inv[of s ls ev] Cons.prems p by simp
qed

lemma wm_after_inv: "wm_inv (wm_after evs t0)"
  unfolding wm_after_def
  by (rule wm_fold_inv) (simp add: wm_inv_def new_WebhookManager_def below_ceiling_def)


lemma upload_loop_cases:
  assumes "below_ceiling (uploadQueue s)"
  shows "(uploadQueue s = [] \<and> upload_loop s = (s\<lparr>processing := False\<rparr>, None)) \<or>
   (\<exists>a s'. upload_loop s = (s', Some a) \<and> processing s' = processing s \<and>
       below_ceiling (uploadQueue s'))"
proof (cases "uploadQueue s")
  case Nil
  then show ?thesis by (simp add: upload_loop_def)
next
  case (Cons u rest)
  then have "below_ceiling rest" using assms by (simp add: below_ceiling_def)
  then show ?thesis using Cons by (auto simp: upload_loop_def)
qed

lemma upload_settled_cases:
  assumes "below_ceiling (uploadQueue s)"
  shows "(\<exists>s'. upload_settled ok u s = (s', None) \<and> \<not> processing s' \<and> uploadQueue s' = []) \<or>
   (\<exists>a s'. upload_settled ok u s = (s', Some a) \<and> processing s' = processing s \<and>
       below_ceiling (uploadQueue s'))"
proof (cases "\<not> ok \<and> Suc (attempts u) < maxAttempts u")
  case True
  then show ?thesis using assms
    by (simp add: upload_settled_def Let_def below_ceiling_def)
next
  case False
  then have eq: "upload_settled ok u s = upload_loop s"
    by (auto simp: upload_settled_def Let_def)
  show ?thesis using upload_loop_cases[OF assms] unfolding eq by auto
qed

lemma rm_step_inv:
  assumes "rm_inv (s, ls)"
  shows "rm_inv (rm_step ev (s, ls))"
proof (cases ev)
  case (Enqueue x)
  obtain path conn sid where x: "x = (path, conn, sid)" by (cases x)
  let ?s1 = "queueForUpload_push path conn sid s"
  have b1: "below_ceiling (uploadQueue ?s1)"
    using assms by (simp add: rm_inv_def queueForUpload_push_def new_upload_def below_ceiling_def)
  show ?thesis
  proof (cases "processing s")
    case True
    then show ?thesis using assms b1 Enqueue x
      by (simp add: rm_inv_def processUploadQueue_enter_def spawn_def queueForUpload_push_def)
  next
    case False
    then have ls: "ls = []" using assms by (simp add: rm_inv_def)
    have enter: "processUploadQueue_enter ?s1 = upload_loop (?s1\<lparr>processing := True\<rparr>)"
      using False by (simp add: processUploadQueue_enter_def queueForUpload_push_def)
    have b2: "below_ceiling (uploadQueue (?s1\<lparr>processing := True\<rparr>))" using b1 by simp
    show ?thesis
      using upload_loop_cases[OF b2] ls Enqueue x enter
      by (auto simp: rm_inv_def spawn_def queueForUpload_push_def)
  qed
next
  case (Elapse d)
  then show ?thesis using assms by (simp add: rm_inv_def)
next
  case (Settles i ok)
  show ?thesis
  proof (cases "i < length ls")
    case False
    then show ?thesis using assms Settles by simp
  next
    case True
    then obtain a where ls: "ls = [a]" and i: "i = 0"
      using assms by (auto simp: rm_inv_def elim: single_index)
    have p: "processing s" using assms ls by (simp add: rm_inv_def)
    show ?thesis
    proof (cases a)
      case (BackingOff t)
      then show ?thesis using assms Settles ls i by simp
    next
      case (Uploading u)
      let ?s1 = "s\<lparr>upload_attempts := Suc (upload_attempts s)\<rparr>"
      have b: "below_ceiling (uploadQueue ?s1)" using assms by (simp add: rm_inv_def)
      show ?thesis
        using upload_settled_cases[OF b, of ok u] Settles ls i Uploading p
        by (auto simp: rm_inv_def resume_def)
    qed
  qed
next
  case (TimerFires i)
  show ?thesis
  proof (cases "i < length ls")
    case False
    then show ?thesis using assms TimerFires by simp
  next
    case True
    then obtain a where ls: "ls = [a]" and i: "i = 0"
      using assms by (auto simp: rm_inv_def elim: single_index)
    have p: "processing s" using assms ls by (simp add: rm_inv_def)
    show ?thesis
    proof (cases a)
      case (Uploading u)
      then show ?thesis using assms TimerFires ls i by simp
    next
      case (BackingOff t)
      have b: "below_ceiling (uploadQueue s)" using assms by (simp add: rm_inv_def)
      show ?thesis
        using upload_loop_cases[OF b] TimerFires ls i BackingOff p assms
        by (auto simp: rm_inv_def resume_def)
    qed
  qed
qed

lemma rm_fold_inv: "rm_inv p \<Longrightarrow> rm_inv (fold rm_step evs p)"
proof (induction evs arbitrary: p)
  case Nil
  then show ?case by simp
next
  case (Cons ev evs)
  obtain s ls where p: "p = (s, ls)" by (cases p)
  show ?case using Cons.IH[of "rm_step ev p"] rm_step_inv[of s ls ev] Cons.prems p by simp
qed

lemma rm_after_inv: "rm_inv (rm_after evs fs t0)"
  unfolding rm_after_def
  by (rule rm_fold_inv) (simp add: rm_inv_def new_RecordingManager_def)

text \<open>How one event can change the flag, from any state.\<close>

lemma queue_loop_flag:
  "queue_loop s = (s', a) \<Longrightarrow>
     (a = None \<longrightarrow> \<not> processing s' \<and> queue s' = []) \<and> (a \<noteq> None \<longrightarrow> processing s' = processing s) \<and>
     (queue s \<noteq> [] \<longrightarrow> a \<noteq> None)"
  by (cases "queue s") (auto simp: queue_loop_def split: if_splits)

lemma webhook_settled_flag:
  "webhook_settled ok w s = (s', a) \<Longrightarrow>
     (a = None \<longrightarrow> \<not> processing s' \<and> queue s' = []) \<and> (a \<noteq> None \<longrightarrow> processing s' = processing s)"
  by (auto simp: webhook_settled_def Let_def split: if_splits dest!: queue_loop_flag)

lemma upload_loop_flag:
  "upload_loop s = (s', a) \<Longrightarrow>
     (a = None \<longrightarrow> \<not> processing s' \<and> uploadQueue s' = []) \<and>
     (a \<noteq> None \<longrightarrow> processing s' = processing s) \<and> (uploadQueue s \<noteq> [] \<longrightarrow> a \<noteq> None)"
  by (cases "uploadQueue s") (auto simp: upload_loop_def)

lemma upload_settled_flag:
  "upload_settled ok u s = (s', a) \<Longrightarrow>
     (a = None \<longrightarrow> \<not> processing s' \<and> uploadQueue s' = []) \<and>
     (a \<noteq> None \<longrightarrow> processing s' = processing s)"
  by (auto simp: upload_settled_def Let_def split: if_splits dest!: upload_loop_flag)

lemma wm_step_flag:
  assumes "wm_step ev (s, ls) = (s', ls')"
  shows "(processing s \<and> \<not> processing s' \<longrightarrow> queue s' = []) \<and>
         (\<not> processing s \<and> processing s' \<longrightarrow> (\<exists>pl a. ev = Enqueue pl \<and> ls' = ls @ [a]))"
proof (cases ev)
  case (Enqueue pl)
  obtain s2 a where e: "processQueue_enter (queueWebhook_push pl s) = (s2, a)"
    by (cases "processQueue_enter (queueWebhook_push pl s)")
  show ?thesis
  proof (cases "processing s")
    case True
    then show ?thesis using assms Enqueue
      by (auto simp: processQueue_enter_def spawn_def queueWebhook_push_def)
  next
    case False
    then have "queue_loop ((queueWebhook_push pl s)\<lparr>processing := True\<rparr>) = (s2, a)"
      using e by (simp add: processQueue_enter_def queueWebhook_push_def)
    from queue_loop_flag[OF this] have "a \<noteq> None" by (simp add: queueWebhook_push_def)
    then show ?thesis using assms Enqueue e False by (auto simp: spawn_def)
  qed
next
  case (Elapse d)
  then show ?thesis using assms by auto
next
  case (Settles i ok)
  show ?thesis
  proof (cases "i < length ls")
    case False
    then show ?thesis using assms Settles by auto
  next
    case True
    show ?thesis
    proof (cases "ls ! i")
      case (Pausing t)
      then show ?thesis using assms Settles True by auto
    next
      case (Sending w)
      obtain s2 a where r: "webhook_settled ok w (s\<lparr>http_calls := Suc (http_calls s)\<rparr>) = (s2, a)"
        by (cases "webhook_settled ok w (s\<lparr>http_calls := Suc (http_calls s)\<rparr>)")
      have "s' = s2" using assms Settles True Sending r by (simp add: resume_def)
      then show ?thesis using webhook_settled_flag[OF r] Settles by (cases a) auto
    qed
  qed
next
  case (TimerFires i)
  show ?thesis
  proof (cases "i < length ls")
    case False
    then show ?thesis using assms TimerFires by auto
  next
    case True
    show ?thesis
    proof (cases "ls ! i")
      case (Sending w)
      then show ?thesis using assms TimerFires True by auto
    next
      case (Pausing t)
      obtain s2 a where r: "queue_loop s = (s2, a)" by (cases "queue_loop s")
      show ?thesis
      proof (cases "t \<le> now s")
        case False
        then show ?thesis using assms TimerFires True Pausing by auto
      next
        case fired: True
        have "s' = s2" using assms TimerFires True Pausing r fired by (simp add: resume_def)
        then show ?thesis using queue_loop_flag[OF r] TimerFires by (cases a) auto
      qed
    qed
  qed
qed

lemma rm_step_flag:
  assumes "rm_step ev (s, ls) = (s', ls')"
  shows "(processing s \<and> \<not> processing s' \<longrightarrow> uploadQueue s' = []) \<and>
         (\<not> processing s \<and> processing s' \<longrightarrow> (\<exists>x a. ev = Enqueue x \<and> ls' = ls @ [a]))"
proof (cases ev)
  case (Enqueue x)
  obtain path conn sid where x: "x = (path, conn, sid)" by (cases x)
  let ?s1 = "queueForUpload_push path conn sid s"
  obtain s2 a where e: "processUploadQueue_enter ?s1 = (s2, a)"
    by (cases "processUploadQueue_enter ?s1")
  show ?thesis
  proof (cases "processing s")
    case True
    then show ?thesis using assms Enqueue x
      by (auto simp: processUploadQueue_enter_def spawn_def queueForUpload_push_def)
  next
    case False
    then have "upload_loop (?s1\<lparr>processing := True\<rparr>) = (s2, a)"
      using e by (simp add: processUploadQueue_enter_def queueForUpload_push_def)
    from upload_loop_flag[OF this] have "a \<noteq> None" by (simp add: queueForUpload_push_def)
    then show ?thesis using assms Enqueue x e False by (auto simp: spawn_def)
  qed
next
  case (Elapse d)
  then show ?thesis using assms by auto
next
  case (Settles i ok)
  show ?thesis
  proof (cases "i < length ls")
    case False
    then show ?thesis using assms Settles by auto
  next
    case True
    show ?thesis
    proof (cases "ls ! i")
      case (BackingOff t)
      then show ?thesis using assms Settles True by auto
    next
      case (Uploading u)
      obtain s2 a where r: "upload_settled ok u (s\<lparr>upload_attempts := Suc (upload_attempts s)\<rparr>) = (s2, a)"
        by (cases "upload_settled ok u (s\<lparr>upload_attempts := Suc (upload_attempts s)\<rparr>)")
      have "s' = s2" using assms Settles True Uploading r by (simp add: resume_def)
      then show ?thesis using upload_settled_flag[OF r] Settles by (cases a) auto
    qed
  qed
next
  case (TimerFires i)
  show ?thesis
  proof (cases "i < length ls")
    case False
    then show ?thesis using assms TimerFires by auto
  next
    case True
    show ?thesis
    proof (cases "ls ! i")
      case (Uploading u)
      then show ?thesis using assms TimerFires True by auto
    next
      case (BackingOff t)
      obtain s2 a where r: "upload_loop s = (s2, a)" by (cases "upload_loop s")
      show ?thesis
      proof (cases "t \<le> now s")
        case False
        then show ?thesis using assms TimerFires True BackingOff by auto
      next
        case fired: True
        have "s' = s2" using assms TimerFires True BackingOff r fired by (simp add: resume_def)
        then show ?thesis using upload_loop_flag[OF r] TimerFires by (cases a) auto
      qed
    qed
  qed
qed

lemmas example_defs =
  wm_busy_def wm_retrying_def rm_busy_def rm_retrying_def example_upload_def wm_after_def
  rm_after_def new_WebhookManager_def new_RecordingManager_def queueWebhook_push_def
  queueForUpload_push_def new_webhook_def new_upload_def processQueue_enter_def
  processUploadQueue_enter_def queue_loop_def upload_loop_def webhook_settled_def
  upload_settled_def backoffDelay_def uploadRetryDelay_def spawn_def resume_def Let_def
  last_try_webhook_def last_try_upload_def

lemma wm_busy_eq:
  "wm_busy = (\<lparr>processing = True, now = 0, queue = [], enabled = True, http_calls = 0\<rparr>,
              [Sending (new_webhook ''session_started'' 0)])"
  by (simp add: example_defs)

lemma wm_retrying_eq:
  "wm_retrying =
     (\<lparr>processing = True, now = 0,
       queue = [\<lparr>attempts = 1, maxAttempts = 3, payload = ''session_started'', nextRetry = 2000\<rparr>],
       enabled = True, http_calls = 1\<rparr>,
      [Pausing 1000])"
  by (simp add: example_defs)

lemma rm_busy_eq:
  "rm_busy = (\<lparr>processing = True, now = 0, uploadQueue = [], files = example_files,
               undeletable = (\<lambda>_. False), s3_calls = 0, upload_attempts = 0, transform_calls = 0\<rparr>,
              [Uploading (new_upload ''/data/recordings/test.guac.gz'' example_conn ''session-123'')])"
  by (simp add: example_defs)

lemma rm_retrying_eq:
  "rm_retrying =
     (\<lparr>processing = True, now = 0,
       uploadQueue = [\<lparr>attempts = 1, maxAttempts = 3, filePath = ''/data/recordings/test.guac.gz'',
                       connection = example_conn, sessionId = ''session-123''\<rparr>],
       files = example_files, undeletable = (\<lambda>_. False), s3_calls = 0, upload_attempts = 1, transform_calls = 0\<rparr>,
      [BackingOff 5000])"
  by (simp add: example_defs)

text \<open>
  C2. In every state either manager can reach from its constructor, every task in the
  queue has \<open>attempts < maxAttempts\<close>, hence \<open>attempts \<le> maxAttempts\<close>. A failed task whose
  incremented counter reaches \<open>maxAttempts\<close> is not stored again: the loop goes on as if
  the task had never been there, and whatever a failure leaves in the queue was there
  before or is below its ceiling.
\<close>

theorem attempts_below_ceiling:
  fixes w :: "'p webhook_task" and s :: "'p WebhookManager"
    and evs :: "'q event list"
  shows "(\<forall>t \<in> set (queue (fst (wm_after evs t0))).
            attempts t < maxAttempts t \<and> attempts t \<le> maxAttempts t) \<and>
         (\<forall>t \<in> set (uploadQueue (fst (rm_after evs' fs t1))).
            attempts t < maxAttempts t \<and> attempts t \<le> maxAttempts t) \<and>
         (maxAttempts w \<le> Suc (attempts w) \<longrightarrow> webhook_settled False w s = queue_loop s) \<and>
         (maxAttempts u \<le> Suc (attempts u) \<longrightarrow> upload_settled False u r = upload_loop r) \<and>
         (below_ceiling (queue s) \<longrightarrow> below_ceiling (queue (fst (webhook_settled False w s)))) \<and>
         (below_ceiling (uploadQueue r) \<longrightarrow>
            below_ceiling (uploadQueue (fst (upload_settled False u r))))"
proof -
  have "below_ceiling (queue (fst (wm_after evs t0)))"
    using wm_after_inv[of evs t0] by (simp add: wm_inv_def)
  then have a: "\<forall>t \<in> set (queue (fst (wm_after evs t0))).
            attempts t < maxAttempts t \<and> attempts t \<le> maxAttempts t"
    by (auto simp: below_ceiling_def list_all_iff)
  have "below_ceiling (uploadQueue (fst (rm_after evs' fs t1)))"
    using rm_after_inv[of evs' fs t1] by (simp add: rm_inv_def)
  then have b: "\<forall>t \<in> set (uploadQueue (fst (rm_after evs' fs t1))).
            attempts t < maxAttempts t \<and> attempts t \<le> maxAttempts t"
    by (auto simp: below_ceiling_def list_all_iff)
  have c: "maxAttempts w \<le> Suc (attempts w) \<longrightarrow> webhook_settled False w s = queue_loop s"
    by (simp add: webhook_settled_def Let_def)
  have d: "maxAttempts u \<le> Suc (attempts u) \<longrightarrow> upload_settled False u r = upload_loop r"
    by (simp add: upload_settled_def Let_def)
  have e: "below_ceiling (queue s) \<longrightarrow> below_ceiling (queue (fst (webhook_settled False w s)))"
    using webhook_settled_cases[of s False w] by auto
  have f: "below_ceiling (uploadQueue r) \<longrightarrow>
            below_ceiling (uploadQueue (fst (upload_settled False u r)))"
    using upload_settled_cases[of r False u] by auto
  show ?thesis using a b c d e f by blast
qed

theorem attempts_below_ceiling_witness:
  "(\<exists>t. set (queue (fst wm_retrying)) = {t} \<and> attempts t = 1 \<and> maxAttempts t = 3 \<and>
        attempts t < maxAttempts t \<and> attempts t \<le> maxAttempts t) \<and>
   (\<exists>t. set (uploadQueue (fst rm_retrying)) = {t} \<and> attempts t = 1 \<and> maxAttempts t = 3 \<and>
        attempts t < maxAttempts t \<and> attempts t \<le> maxAttempts t) \<and>
   maxAttempts last_try_webhook \<le> Suc (attempts last_try_webhook) \<and>
   webhook_settled False last_try_webhook (fst wm_busy) = queue_loop (fst wm_busy) \<and>
   queue (fst (webhook_settled False last_try_webhook (fst wm_busy))) = [] \<and>
   maxAttempts last_try_upload \<le> Suc (attempts last_try_upload) \<and>
   upload_settled False last_try_upload (fst rm_busy) = upload_loop (fst rm_busy) \<and>
   uploadQueue (fst (upload_settled False last_try_upload (fst rm_busy))) = [] \<and>
   below_ceiling (queue (fst wm_busy)) \<and> below_ceiling (uploadQueue (fst rm_busy))"
  using attempts_below_ceiling[of "[Enqueue ''session_started'', Settles 0 False]" 0
      "[Enqueue example_upload, Settles 0 False]" example_files 0
      last_try_webhook "fst wm_busy" last_try_upload "fst rm_busy"]
  unfolding wm_retrying_def[symmetric] rm_retrying_def[symmetric]
  by (simp add: wm_retrying_eq rm_retrying_eq wm_busy_eq rm_busy_eq last_try_webhook_def
      last_try_upload_def new_upload_def queue_loop_def upload_loop_def)

text \<open>
  C3. The drain procedure returns at once, starting nothing, when the flag is set; an
  enqueue during a drain leaves the suspended loops as they are. An event clears the flag
  only in a state whose queue is empty, and sets it only by starting a loop from an
  enqueue. In every reachable state at most one drain loop exists, and the flag is set
  exactly while it exists.
\<close>

theorem single_drain_loop:
  fixes s :: "'p WebhookManager" and evs :: "'q event list"
  shows "(processing s \<longrightarrow> processQueue_enter s = (s, None) \<and>
                          snd (wm_step (Enqueue pl) (s, ls)) = ls) \<and>
         (processing r \<longrightarrow> processUploadQueue_enter r = (r, None) \<and>
                          snd (rm_step (Enqueue x) (r, lr)) = lr) \<and>
         (processing s \<and> \<not> processing (fst (wm_step ev (s, ls))) \<longrightarrow>
            queue (fst (wm_step ev (s, ls))) = []) \<and>
         (\<not> processing s \<and> processing (fst (wm_step ev (s, ls))) \<longrightarrow>
            (\<exists>pl a. ev = Enqueue pl \<and> snd (wm_step ev (s, ls)) = ls @ [a])) \<and>
         (processing r \<and> \<not> processing (fst (rm_step ev' (r, lr))) \<longrightarrow>
            uploadQueue (fst (rm_step ev' (r, lr))) = []) \<and>
         (\<not> processing r \<and> processing (fst (rm_step ev' (r, lr))) \<longrightarrow>
            (\<exists>x a. ev' = Enqueue x \<and> snd (rm_step ev' (r, lr)) = lr @ [a])) \<and>
         length (snd (wm_after evs t0)) \<le> 1 \<and>
         processing (fst (wm_after evs t0)) = (snd (wm_after evs t0) \<noteq> []) \<and>
         length (snd (rm_after evs' fs t1)) \<le> 1 \<and>
         processing (fst (rm_after evs' fs t1)) = (snd (rm_after evs' fs t1) \<noteq> [])"
proof -
  have a: "processing s \<longrightarrow> processQueue_enter s = (s, None) \<and>
                          snd (wm_step (Enqueue pl) (s, ls)) = ls"
    by (simp add: processQueue_enter_def spawn_def queueWebhook_push_def)
  have b: "processing r \<longrightarrow> processUploadQueue_enter r = (r, None) \<and>
                          snd (rm_step (Enqueue x) (r, lr)) = lr"
    by (cases x) (simp add: processUploadQueue_enter_def spawn_def queueForUpload_push_def)
  have c: "(processing s \<and> \<not> processing (fst (wm_step ev (s, ls))) \<longrightarrow>
            queue (fst (wm_step ev (s, ls))) = []) \<and>
         (\<not> processing s \<and> processing (fst (wm_step ev (s, ls))) \<longrightarrow>
            (\<exists>pl a. ev = Enqueue pl \<and> snd (wm_step ev (s, ls)) = ls @ [a]))"
    using wm_step_flag[of ev s ls "fst (wm_step ev (s, ls))" "snd (wm_step ev (s, ls))"] by simp
  have d: "(processing r \<and> \<not> processing (fst (rm_step ev' (r, lr))) \<longrightarrow>
            uploadQueue (fst (rm_step ev' (r, lr))) = []) \<and>
         (\<not> processing r \<and> processing (fst (rm_step ev' (r, lr))) \<longrightarrow>
            (\<exists>x a. ev' = Enqueue x \<and> snd (rm_step ev' (r, lr)) = lr @ [a]))"
    using rm_step_flag[of ev' r lr "fst (rm_step ev' (r, lr))" "snd (rm_step ev' (r, lr))"] by simp
  have e: "length (snd (wm_after evs t0)) \<le> 1 \<and>
         processing (fst (wm_after evs t0)) = (snd (wm_after evs t0) \<noteq> [])"
    using wm_after_inv[of evs t0] by (simp add: wm_inv_def)
  have f: "length (snd (rm_after evs' fs t1)) \<le> 1 \<and>
         processing (fst (rm_after evs' fs t1)) = (snd (rm_after evs' fs t1) \<noteq> [])"
    using rm_after_inv[of evs' fs t1] by (simp add: rm_inv_def)
  show ?thesis using a b c d e f by blast
qed

theorem single_drain_loop_witness:
  "processing (fst wm_busy) \<and> processQueue_enter (fst wm_busy) = (fst wm_busy, None) \<and>
   snd (wm_step (Enqueue ''session_ended'') wm_busy) = snd wm_busy \<and>
   processing (fst rm_busy) \<and> processUploadQueue_enter (fst rm_busy) = (fst rm_busy, None) \<and>
   snd (rm_step (Enqueue example_upload) rm_busy) = snd rm_busy \<and>
   \<not> processing (fst (wm_step (Settles 0 True) wm_busy)) \<and>
   queue (fst (wm_step (Settles 0 True) wm_busy)) = [] \<and>
   \<not> processing (fst (rm_step (Settles 0 True) rm_busy)) \<and>
   uploadQueue (fst (rm_step (Settles 0 True) rm_busy)) = [] \<and>
   \<not> processing (new_WebhookManager True 0 :: string WebhookManager) \<and>
   wm_step (Enqueue ''session_started'') (new_WebhookManager True 0, []) = wm_busy \<and>
   snd wm_busy = [] @ [Sending (new_webhook ''session_started'' 0)] \<and>
   \<not> processing (new_RecordingManager example_files 0) \<and>
   rm_step (Enqueue example_upload) (new_RecordingManager example_files 0, []) = rm_busy \<and>
   snd rm_busy = [] @ [Uploading (new_upload ''/data/recordings/test.guac.gz'' example_conn ''session-123'')] \<and>
   length (snd (wm_after [Enqueue ''session_started'', Enqueue ''session_ended''] 0)) \<le> 1 \<and>
   snd (wm_after [Enqueue ''session_started'', Enqueue ''session_ended''] 0) \<noteq> [] \<and>
   length (snd (rm_after [Enqueue example_upload, Enqueue example_upload] example_files 0)) \<le> 1 \<and>
   snd (rm_after [Enqueue example_upload, Enqueue example_upload] example_files 0) \<noteq> []"
proof -
  have evs: "wm_after [Enqueue ''session_started'', Enqueue ''session_ended''] 0 =
      (\<lparr>processing = True, now = 0, queue = [new_webhook ''session_ended'' 0], enabled = True,
        http_calls = 0\<rparr>, [Sending (new_webhook ''session_started'' 0)])"
    by (simp add: example_defs)
  have evs': "snd (rm_after [Enqueue example_upload, Enqueue example_upload] example_files 0) =
      [Uploading (new_upload ''/data/recordings/test.guac.gz'' example_conn ''session-123'')]"
    by (simp add: example_defs)
  have start: "wm_step (Enqueue ''session_started'') (new_WebhookManager True 0, []) = wm_busy"
    "rm_step (Enqueue example_upload) (new_RecordingManager example_files 0, []) = rm_busy"
    by (simp_all add: example_defs)
  have stop: "wm_step (Settles 0 True) wm_busy =
      (\<lparr>processing = False, now = 0, queue = [], enabled = True, http_calls = 1\<rparr>, [])"
    "fst (rm_step (Settles 0 True) rm_busy) =
      \<lparr>processing = False, now = 0, uploadQueue = [], files = example_files,
               undeletable = (\<lambda>_. False), s3_calls = 0, upload_attempts = 1, transform_calls = 0\<rparr>"
    unfolding wm_busy_eq rm_busy_eq
    by (simp_all add: webhook_settled_def upload_settled_def queue_loop_def upload_loop_def resume_def)
  show ?thesis
    using single_drain_loop[of "fst wm_busy" "''session_ended''" "snd wm_busy" "fst rm_busy"
        example_upload "snd rm_busy" "Settles 0 True" "Settles 0 True"
        "[Enqueue ''session_started'', Enqueue ''session_ended'']" 0
        "[Enqueue example_upload, Enqueue example_upload]" example_files 0]
      single_drain_loop[of "new_WebhookManager True 0" "''session_started''" "[]"
        "new_RecordingManager example_files 0" example_upload "[]"
        "Enqueue ''session_started''" "Enqueue example_upload" "[]" 0 "[]" example_files 0]
    unfolding start stop evs evs'
    by (simp add: wm_busy_eq rm_busy_eq new_WebhookManager_def new_RecordingManager_def)
qed

section \<open>Shutdown\<close>

text \<open>
  C4: the code at the failing input. With one notification (one upload) enqueued and in
  flight, the queue is empty and the flag is set; cleanup returns at its first poll,
  although the delivery is still under way and, should it fail, the task comes back into
  the queue.
\<close>

theorem cleanup_returns_while_in_flight:
  "getQueueStatus (fst wm_busy) = (0, True) \<and>
   snd wm_busy = [Sending (new_webhook ''session_started'' 0)] \<and>
   WebhookManager_cleanup (fst wm_busy) = Returns \<and>
   wm_step (Settles 0 False) wm_busy = wm_retrying \<and>
   length (queue (fst wm_retrying)) = 1 \<and>
   uploadQueue (fst rm_busy) = [] \<and> processing (fst rm_busy) \<and>
   snd rm_busy = [Uploading (new_upload ''/data/recordings/test.guac.gz'' example_conn ''session-123'')] \<and>
   RecordingManager_cleanup (fst rm_busy) = Returns \<and>
   rm_step (Settles 0 False) rm_busy = rm_retrying \<and>
   length (uploadQueue (fst rm_retrying)) = 1"
proof -
  have "wm_step (Settles 0 False) wm_busy = wm_retrying" "rm_step (Settles 0 False) rm_busy = rm_retrying"
    by (simp_all add: wm_busy_def wm_retrying_def rm_busy_def rm_retrying_def wm_after_def rm_after_def)
  then show ?thesis
    by (simp add: wm_busy_eq rm_busy_eq wm_retrying_eq rm_retrying_eq getQueueStatus_def
        WebhookManager_cleanup_def RecordingManager_cleanup_def)
qed

section \<open>Backoff and queue order\<close>




text \<open>
  C6 (as amended). A task taken from the head of the notification queue whose \<open>nextRetry\<close>
  lies in the future is put back at the head: the queue is as it was, and the loop waits
  a second. A head task that is due is removed and sent. So tasks are attempted in queue
  order, and the tasks behind a head in its backoff window wait for it.
\<close>

theorem head_in_backoff_is_put_back:
  fixes s :: "'p WebhookManager"
  shows "(queue s = w # rest \<and> nextRetry w > now s \<longrightarrow>
            queue_loop s = (s, Some (Pausing (now s + 1000)))) \<and>
         (queue s = w # rest \<and> nextRetry w \<le> now s \<longrightarrow>
            queue_loop s = (s\<lparr>queue := rest\<rparr>, Some (Sending w)))"
  by (auto simp: queue_loop_def)

lemma wm_blocked_eq:
  "wm_blocked =
     (\<lparr>processing = True, now = 1000,
       queue = [\<lparr>attempts = 1, maxAttempts = 3, payload = ''session_started'', nextRetry = 2000\<rparr>,
                \<lparr>attempts = 0, maxAttempts = 3, payload = ''session_ended'', nextRetry = 0\<rparr>],
       enabled = True, http_calls = 1\<rparr>,
      [Pausing 2000])"
  by (simp add: wm_blocked_def example_defs)

theorem head_in_backoff_is_put_back_witness:
  "queue (fst wm_blocked) =
     [\<lparr>attempts = 1, maxAttempts = 3, payload = ''session_started'', nextRetry = 2000\<rparr>,
      \<lparr>attempts = 0, maxAttempts = 3, payload = ''session_ended'', nextRetry = 0\<rparr>] \<and>
   now (fst wm_blocked) < 2000 \<and>
   queue_loop (fst wm_blocked) = (fst wm_blocked, Some (Pausing 2000)) \<and>
   queue (fst wm_busy\<lparr>queue := [first_try_webhook]\<rparr>) = [first_try_webhook] \<and>
   nextRetry first_try_webhook \<le> now (fst wm_busy) \<and>
   queue_loop (fst wm_busy\<lparr>queue := [first_try_webhook]\<rparr>) = (fst wm_busy, Some (Sending first_try_webhook))"
  using head_in_backoff_is_put_back[of "fst wm_blocked"
      "\<lparr>attempts = 1, maxAttempts = 3, payload = ''session_started'', nextRetry = 2000\<rparr>"
      "[\<lparr>attempts = 0, maxAttempts = 3, payload = ''session_ended'', nextRetry = 0\<rparr>]"]
    head_in_backoff_is_put_back[of "fst wm_busy\<lparr>queue := [first_try_webhook]\<rparr>" first_try_webhook "[]"]
  by (simp add: wm_blocked_eq wm_busy_eq first_try_webhook_def new_webhook_def)

text \<open>
  The claim as stated fails: in the reachable state \<open>wm_blocked\<close> the head task is in its
  backoff window and the task behind it is due; the loop leaves the order as it is (the
  head is not moved to the tail), waits, and the due task is not attempted.
\<close>

theorem head_in_backoff_is_put_back_counterexample:
  "map payload (queue (fst wm_blocked)) = [''session_started'', ''session_ended''] \<and>
   nextRetry (queue (fst wm_blocked) ! 0) > now (fst wm_blocked) \<and>
   nextRetry (queue (fst wm_blocked) ! 1) \<le> now (fst wm_blocked) \<and>
   map payload (queue (fst (queue_loop (fst wm_blocked)))) = [''session_started'', ''session_ended''] \<and>
   map payload (queue (fst (queue_loop (fst wm_blocked)))) \<noteq> [''session_ended'', ''session_started''] \<and>
   snd (queue_loop (fst wm_blocked)) = Some (Pausing 2000) \<and>
   http_calls (fst (queue_loop (fst wm_blocked))) = http_calls (fst wm_blocked)"
  by (simp add: wm_blocked_eq queue_loop_def)

section \<open>The compression stage\<close>










section \<open>Redaction of webhook payloads\<close>

lemma removeSensitiveFields_idem:
  "removeSensitiveFields (removeSensitiveFields v) = removeSensitiveFields v"
proof (induction v)
  case (JObj kvs)
  have "(case (case kv of (key, v) \<Rightarrow> (key, if is_sensitive key then REDACTED else removeSensitiveFields v)) of
          (key, v) \<Rightarrow> (key, if is_sensitive key then REDACTED else removeSensitiveFields v)) =
        (case kv of (key, v) \<Rightarrow> (key, if is_sensitive key then REDACTED else removeSensitiveFields v))"
    if "kv \<in> set kvs" for kv
  proof -
    obtain k v where kv: "kv = (k, v)" by (cases kv)
    have "removeSensitiveFields (removeSensitiveFields v) = removeSensitiveFields v"
      using JObj.IH[of kv v] that kv by simp
    then show ?thesis using kv by (simp add: REDACTED_def)
  qed
  then show ?case by simp
next
  case (JArr xs)
  then show ?case by simp
qed simp_all

lemma is_object_removeSensitiveFields [simp]:
  "is_object (removeSensitiveFields v) = is_object v"
  by (cases v) simp_all

lemma sanitize_idem: "sanitizeWebhookPayload (sanitizeWebhookPayload d) = sanitizeWebhookPayload d"
  by (simp add: sanitizeWebhookPayload_def removeSensitiveFields_idem)

lemma map_of_redact:
  "map_of (map (\<lambda>(key, v). (key, if is_sensitive key then REDACTED else removeSensitiveFields v)) kvs) k =
     map_option (\<lambda>v. if is_sensitive k then REDACTED else removeSensitiveFields v) (map_of kvs k)"
  by (induction kvs) auto

lemma at_path_prim: "\<not> is_object v \<Longrightarrow> p \<noteq> [] \<Longrightarrow> at_path v p = None"
  by (cases v; cases p) simp_all

lemma redacted_at_matching_key:
  "at_path (removeSensitiveFields d) (p @ [Key k]) = Some v \<Longrightarrow> is_sensitive k \<Longrightarrow> v = REDACTED"
proof (induction p arbitrary: d)
  case Nil
  then show ?case
    by (cases d) (auto simp: map_of_redact split: option.splits)
next
  case (Cons sg p)
  show ?case
  proof (cases d)
    case (JObj kvs)
    show ?thesis
    proof (cases sg)
      case (Idx i)
      then show ?thesis using Cons.prems JObj by simp
    next
      case (Key k0)
      show ?thesis
      proof (cases "map_of kvs k0")
        case None
        then show ?thesis using Cons.prems JObj Key by (simp add: map_of_redact)
      next
        case (Some v0)
        show ?thesis
        proof (cases "is_sensitive k0")
          case True
          then show ?thesis using Cons.prems JObj Key Some
            by (simp add: map_of_redact REDACTED_def at_path_prim)
        next
          case False
          then show ?thesis using Cons.prems JObj Key Some Cons.IH[of v0]
            by (simp add: map_of_redact)
        qed
      qed
    qed
  next
    case (JArr xs)
    then show ?thesis using Cons.prems Cons.IH by (cases sg) (auto split: if_splits)
  qed (use Cons.prems in simp_all)
qed

lemma kept_at_clear_path:
  "clear_path p \<Longrightarrow> at_path (removeSensitiveFields d) p = map_option removeSensitiveFields (at_path d p)"
proof (induction p arbitrary: d)
  case Nil
  then show ?case by simp
next
  case (Cons sg p)
  show ?case
  proof (cases d)
    case (JObj kvs)
    then show ?thesis using Cons
      by (cases sg) (auto simp: map_of_redact split: option.splits)
  next
    case (JArr xs)
    then show ?thesis using Cons by (cases sg) auto
  qed simp_all
qed

lemma sanitize_eq: "sanitizeWebhookPayload d = removeSensitiveFields d"
  by (cases d) (simp_all add: sanitizeWebhookPayload_def)

lemma at_path_append:
  "at_path d (p @ q) = (case at_path d p of None \<Rightarrow> None | Some v \<Rightarrow> at_path v q)"
proof (induction p arbitrary: d)
  case Nil
  then show ?case by simp
next
  case (Cons sg p)
  show ?case
  proof (cases d)
    case (JObj kvs)
    then show ?thesis using Cons by (cases sg) (auto split: option.splits)
  next
    case (JArr xs)
    then show ?thesis using Cons by (cases sg) auto
  next
    case JNull
    then show ?thesis by simp
  next
    case (JBool b)
    then show ?thesis by simp
  next
    case (JNum n)
    then show ?thesis by simp
  next
    case (JStr s)
    then show ?thesis by simp
  qed
qed

lemma matching_key_redacted:
  assumes "clear_path p" and "is_sensitive k" and "at_path d (p @ [Key k]) = Some v"
  shows "at_path (removeSensitiveFields d) (p @ [Key k]) = Some REDACTED"
proof -
  from assms(3) obtain o1 where o1: "at_path d p = Some o1" and k: "at_path o1 [Key k] = Some v"
    by (auto simp: at_path_append split: option.splits)
  from k obtain kvs where obj: "o1 = JObj kvs" and "map_of kvs k = Some v"
    by (cases o1) (auto split: option.splits)
  then have "at_path (removeSensitiveFields o1) [Key k] = Some REDACTED"
    using assms(2) by (simp add: map_of_redact)
  then show ?thesis
    using kept_at_clear_path[OF assms(1), of d] o1 by (simp add: at_path_append)
qed

lemma example_payload_sanitized:
  "sanitizeWebhookPayload example_payload =
     JObj [(''user'', JStr ''a''), (''meta'', JObj [(''api_key'', JStr ''[REDACTED]''), (''id'', JNum 1)])]"
  by (simp add: sanitizeWebhookPayload_def example_payload_def is_sensitive_def sensitiveFields_def
      toLowerCase_def lower_char_def REDACTED_def)

text \<open>
  C8 (as amended). Redaction is idempotent and deep. Wherever the output has a property
  whose lower-cased name contains an entry of the code's list (password, private-key,
  secret, token, passphrase, secret_key, access_key, api_key), at any depth and through
  arrays, its value is the marker; a property of the input with such a name that is
  reached through names not on the list is in the output with the marker. A value reached
  through names not on the list is in the output at the same path, itself redacted in
  the same way (so a value that is not an object or array is unchanged). The
  specification's example comes out as stated.
\<close>

theorem redaction_idempotent_and_deep:
  "sanitizeWebhookPayload (sanitizeWebhookPayload d) = sanitizeWebhookPayload d \<and>
   (is_sensitive k \<and> at_path (sanitizeWebhookPayload d) (p @ [Key k]) = Some v \<longrightarrow> v = REDACTED) \<and>
   (is_sensitive k \<and> clear_path p \<and> at_path d (p @ [Key k]) = Some v \<longrightarrow>
      at_path (sanitizeWebhookPayload d) (p @ [Key k]) = Some REDACTED) \<and>
   (clear_path p \<and> at_path d p = Some v \<longrightarrow>
      at_path (sanitizeWebhookPayload d) p = Some (removeSensitiveFields v) \<and>
      (\<not> is_object v \<longrightarrow> at_path (sanitizeWebhookPayload d) p = Some v)) \<and>
   sanitizeWebhookPayload example_payload =
     JObj [(''user'', JStr ''a''), (''meta'', JObj [(''api_key'', JStr ''[REDACTED]''), (''id'', JNum 1)])]"
proof -
  have a: "is_sensitive k \<and> at_path (sanitizeWebhookPayload d) (p @ [Key k]) = Some v \<longrightarrow> v = REDACTED"
    using redacted_at_matching_key[of d p k v] by (simp add: sanitize_eq)
  have b: "is_sensitive k \<and> clear_path p \<and> at_path d (p @ [Key k]) = Some v \<longrightarrow>
      at_path (sanitizeWebhookPayload d) (p @ [Key k]) = Some REDACTED"
    using matching_key_redacted[of p k d v] by (simp add: sanitize_eq)
  have prim: "\<not> is_object v \<Longrightarrow> removeSensitiveFields v = v"
    by (cases v) simp_all
  have c: "clear_path p \<and> at_path d p = Some v \<longrightarrow>
      at_path (sanitizeWebhookPayload d) p = Some (removeSensitiveFields v) \<and>
      (\<not> is_object v \<longrightarrow> at_path (sanitizeWebhookPayload d) p = Some v)"
    using kept_at_clear_path[of p d] prim by (auto simp: sanitize_eq)
  show ?thesis using sanitize_idem[of d] a b c example_payload_sanitized by blast
qed

theorem redaction_idempotent_and_deep_witness:
  "is_sensitive ''api_key'' \<and> clear_path [Key ''meta''] \<and> clear_path [Key ''meta'', Key ''id''] \<and>
   at_path example_payload ([Key ''meta''] @ [Key ''api_key'']) = Some (JStr ''x'') \<and>
   at_path (sanitizeWebhookPayload example_payload) ([Key ''meta''] @ [Key ''api_key'']) = Some REDACTED \<and>
   at_path example_payload [Key ''meta'', Key ''id''] = Some (JNum 1) \<and>
   \<not> is_object (JNum 1) \<and>
   at_path (sanitizeWebhookPayload example_payload) [Key ''meta'', Key ''id''] = Some (JNum 1) \<and>
   sanitizeWebhookPayload (sanitizeWebhookPayload example_payload) = sanitizeWebhookPayload example_payload"
proof -
  have facts: "is_sensitive ''api_key''" "clear_path [Key ''meta'']" "clear_path [Key ''meta'', Key ''id'']"
    "at_path example_payload ([Key ''meta''] @ [Key ''api_key'']) = Some (JStr ''x'')"
    "at_path example_payload [Key ''meta'', Key ''id''] = Some (JNum 1)"
    by (simp_all add: is_sensitive_def sensitiveFields_def toLowerCase_def lower_char_def
        example_payload_def)
  note first = redaction_idempotent_and_deep[where k = "''api_key''" and d = example_payload
          and p = "[Key ''meta'']" and v = "JStr ''x''"]
  note second = redaction_idempotent_and_deep[where k = "''api_key''" and d = example_payload
          and p = "[Key ''meta'', Key ''id'']" and v = "JNum 1"]
  have marked: "at_path (sanitizeWebhookPayload example_payload) ([Key ''meta''] @ [Key ''api_key'']) =
      Some REDACTED"
    using first facts by blast
  have kept: "at_path (sanitizeWebhookPayload example_payload) [Key ''meta'', Key ''id''] = Some (JNum 1)"
    using second facts by simp
  have idem: "sanitizeWebhookPayload (sanitizeWebhookPayload example_payload) =
      sanitizeWebhookPayload example_payload"
    using first by blast
  show ?thesis using facts marked kept idem by simp
qed

text \<open>
  The claim as stated fails. The name \<open>access_key\<close> contains none of the six names the
  claim lists, yet its value is replaced; the name \<open>private_key\<close> matches the claim's
  "private key", yet its value is kept (the code's entry is \<open>private-key\<close>); and the
  property \<open>id\<close> inside \<open>token\<close>, which matches nothing, does not keep its value, since the
  whole value of \<open>token\<close> is replaced.
\<close>

theorem redaction_idempotent_and_deep_counterexample:
  "\<not> spec_matches ''access_key'' \<and>
   sanitizeWebhookPayload (JObj [(''access_key'', JStr ''x'')]) = JObj [(''access_key'', JStr ''[REDACTED]'')] \<and>
   spec_matches ''private_key'' \<and>
   sanitizeWebhookPayload (JObj [(''private_key'', JStr ''x'')]) = JObj [(''private_key'', JStr ''x'')] \<and>
   \<not> is_sensitive ''id'' \<and> \<not> spec_matches ''id'' \<and>
   at_path nested_in_token [Key ''token'', Key ''id''] = Some (JNum 1) \<and>
   at_path (sanitizeWebhookPayload nested_in_token) [Key ''token'', Key ''id''] = None"
  by (simp add: sanitizeWebhookPayload_def nested_in_token_def is_sensitive_def sensitiveFields_def
      spec_matches_def spec_deny_list_def toLowerCase_def lower_char_def REDACTED_def)

section \<open>The copy made by sanitizeWebhookPayload\<close>

lemma fold_invariant:
  assumes "I acc" and "\<And>x acc. x \<in> set xs \<Longrightarrow> I acc \<Longrightarrow> I (f x acc)"
  shows "I (fold f xs acc)"
  using assms by (induction xs arbitrary: acc) auto

lemma closed_from_append:
  assumes "closed_from base h" and "\<forall>b \<in> refs_of ob. base \<le> b \<and> b < length h"
  shows "closed_from base (h @ [ob])"
  unfolding closed_from_def
proof (intro allI impI ballI)
  fix a b
  assume a: "base \<le> a \<and> a < length (h @ [ob])" and b: "b \<in> refs_of ((h @ [ob]) ! a)"
  show "base \<le> b \<and> b < length (h @ [ob])"
  proof (cases "a < length h")
    case True
    then have "b \<in> refs_of (h ! a)" using b by (simp add: nth_append)
    moreover have "\<forall>b \<in> refs_of (h ! a). base \<le> b \<and> b < length h"
      using assms(1) a True unfolding closed_from_def by blast
    ultimately have "base \<le> b \<and> b < length h" by blast
    then show ?thesis by simp
  next
    case False
    then have "a = length h" using a by simp
    then have "b \<in> refs_of ob" using b by simp
    then have "base \<le> b \<and> b < length h" using assms(2) by blast
    then show ?thesis by simp
  qed
qed

lemma closed_from_extend:
  assumes "closed_from base h" and "closed_from (length h) h'" and "take (length h) h' = h"
    and "length h \<le> length h'" and "base \<le> length h"
  shows "closed_from base h'"
  unfolding closed_from_def
proof (intro allI impI ballI)
  fix a b
  assume a: "base \<le> a \<and> a < length h'" and b: "b \<in> refs_of (h' ! a)"
  show "base \<le> b \<and> b < length h'"
  proof (cases "a < length h")
    case True
    then have "h' ! a = h ! a" using assms(3) by (metis nth_take)
    then have "b \<in> refs_of (h ! a)" using b by simp
    then have "base \<le> b \<and> b < length h" using assms(1) a True unfolding closed_from_def by blast
    then show ?thesis using assms(4) by simp
  next
    case False
    then have "length h \<le> b \<and> b < length h'"
      using assms(2) a b unfolding closed_from_def by (meson not_le)
    then show ?thesis using assms(5) by simp
  qed
qed

lemma in_range_mono:
  "in_range b h v \<Longrightarrow> b' \<le> b \<Longrightarrow> length h \<le> length h' \<Longrightarrow> in_range b' h' v"
  by (cases v) auto

lemma parsed_prim: "closed_from (length h) h"
  by (simp add: closed_from_def)



lemma parsed_step:
  assumes inv: "take (length h) hc = h" "length h \<le> length hc" "closed_from (length h) hc"
    and p: "parsed hc (v, h')"
  shows "take (length h) h' = h" "length h \<le> length h'" "closed_from (length h) h'"
    "in_range (length h) h' v" "length hc \<le> length h'"
proof -
  from p have t: "take (length hc) h' = hc" and l: "length hc \<le> length h'"
    and c: "closed_from (length hc) h'" and r: "in_range (length hc) h' v"
    by (simp_all add: parsed_def)
  have "take (length h) h' = take (length h) (take (length hc) h')"
    using inv(2) by (simp add: min_def)
  then show "take (length h) h' = h" using t inv(1) by simp
  show "length h \<le> length h'" using inv(2) l by simp
  show "closed_from (length h) h'"
    by (rule closed_from_extend[OF inv(3) c t l inv(2)])
  show "in_range (length h) h' v"
    by (rule in_range_mono[OF r inv(2) order_refl])
  show "length hc \<le> length h'" by (rule l)
qed

lemma parse_parsed: "parsed h (parse j h)"
proof (induction j h rule: parse.induct)
  case (5 xs h)
  define I where "I = (\<lambda>acc :: jsval list \<times> store.
      take (length h) (snd acc) = h \<and> length h \<le> length (snd acc) \<and>
      closed_from (length h) (snd acc) \<and> (\<forall>v \<in> set (fst acc). in_range (length h) (snd acc) v))"
  define step where "step = (\<lambda>x (vs :: jsval list, hc). let (v, h') = parse x hc in (vs @ [v], h'))"
  have I0: "I ([], h)" by (simp add: I_def parsed_prim)
  have Istep: "I (step x acc)" if x: "x \<in> set xs" and acc: "I acc" for x acc
  proof -
    obtain vs hc where a: "acc = (vs, hc)" by (cases acc)
    obtain v h' where p: "parse x hc = (v, h')" by (cases "parse x hc")
    have P: "parsed hc (v, h')" using "5.IH"[OF x, of hc] p by simp
    have inv: "take (length h) hc = h" "length h \<le> length hc" "closed_from (length h) hc"
      and old: "\<forall>v \<in> set vs. in_range (length h) hc v"
      using acc a by (simp_all add: I_def)
    note s = parsed_step[OF inv P]
    have "\<forall>v \<in> set vs. in_range (length h) h' v"
      using old s(5) in_range_mono[OF _ order_refl] by blast
    then show ?thesis using s a p by (simp add: I_def step_def)
  qed
  have "I (fold step xs ([], h))" using I0 Istep by (rule fold_invariant[where I = I])
  moreover obtain vs h1 where f: "fold step xs ([], h) = (vs, h1)" by (cases "fold step xs ([], h)")
  ultimately have inv: "take (length h) h1 = h" "length h \<le> length h1" "closed_from (length h) h1"
    and vs: "\<forall>v \<in> set vs. in_range (length h) h1 v"
    by (simp_all add: I_def)
  have refs: "\<forall>b \<in> refs_of (HArr vs). length h \<le> b \<and> b < length h1"
    using vs by fastforce
  have res: "parse (JArr xs) h = (VRef (length h1), h1 @ [HArr vs])"
    using f by (simp add: step_def)
  show ?case
    unfolding res parsed_def using inv closed_from_append[OF inv(3) refs] by simp
next
  case (6 kvs h)
  define I where "I = (\<lambda>acc :: (string \<times> jsval) list \<times> store.
      take (length h) (snd acc) = h \<and> length h \<le> length (snd acc) \<and>
      closed_from (length h) (snd acc) \<and>
      (\<forall>v \<in> snd ` set (fst acc). in_range (length h) (snd acc) v))"
  define step where "step = (\<lambda>(k :: string, x) (fs :: (string \<times> jsval) list, hc).
      let (v, h') = parse x hc in (fs @ [(k, v)], h'))"
  have I0: "I ([], h)" by (simp add: I_def parsed_prim)
  have Istep: "I (step kx acc)" if kx: "kx \<in> set kvs" and acc: "I acc" for kx acc
  proof -
    obtain k x where kxe: "kx = (k, x)" by (cases kx)
    obtain fs hc where a: "acc = (fs, hc)" by (cases acc)
    obtain v h' where p: "parse x hc = (v, h')" by (cases "parse x hc")
    have P: "parsed hc (v, h')" using "6.IH"[OF kx kxe[symmetric], of hc] p by simp
    have inv: "take (length h) hc = h" "length h \<le> length hc" "closed_from (length h) hc"
      and old: "\<forall>v \<in> snd ` set fs. in_range (length h) hc v"
      using acc a by (simp_all add: I_def)
    note s = parsed_step[OF inv P]
    have "\<forall>v \<in> snd ` set fs. in_range (length h) h' v"
      using old s(5) in_range_mono[OF _ order_refl] by blast
    then show ?thesis using s a p kxe by (simp add: I_def step_def)
  qed
  have "I (fold step kvs ([], h))" using I0 Istep by (rule fold_invariant[where I = I])
  moreover obtain fs h1 where f: "fold step kvs ([], h) = (fs, h1)"
    by (cases "fold step kvs ([], h)")
  ultimately have inv: "take (length h) h1 = h" "length h \<le> length h1" "closed_from (length h) h1"
    and fs: "\<forall>v \<in> snd ` set fs. in_range (length h) h1 v"
    by (simp_all add: I_def)
  have refs: "\<forall>b \<in> refs_of (HObj fs). length h \<le> b \<and> b < length h1"
    using fs by fastforce
  have res: "parse (JObj kvs) h = (VRef (length h1), h1 @ [HObj fs])"
    using f by (simp add: step_def)
  show ?case
    unfolding res parsed_def using inv closed_from_append[OF inv(3) refs] by simp
qed (simp_all add: parsed_def parsed_prim)


lemma frame_refl: "closed_from B h \<Longrightarrow> frame B h h"
  by (simp add: frame_def)

lemma frame_trans: "frame B h h1 \<Longrightarrow> frame B h1 h2 \<Longrightarrow> frame B h h2"
  by (simp add: frame_def)

lemma closed_from_update:
  assumes c: "closed_from B h" and a: "a < length h" and sub: "refs_of ob \<subseteq> refs_of (h ! a)"
  shows "closed_from B (h[a := ob])"
  unfolding closed_from_def
proof (intro allI impI ballI)
  fix x b
  assume x: "B \<le> x \<and> x < length (h[a := ob])" and b: "b \<in> refs_of (h[a := ob] ! x)"
  from x have xl: "B \<le> x \<and> x < length h" by simp
  have old: "\<forall>b \<in> refs_of (h ! x). B \<le> b \<and> b < length h"
    using c xl unfolding closed_from_def by blast
  have "b \<in> refs_of (h ! x)"
  proof (cases "x = a")
    case True
    then have "b \<in> refs_of ob" using b a by simp
    then show ?thesis using sub True by blast
  next
    case False
    then show ?thesis using b by simp
  qed
  then have "B \<le> b \<and> b < length h" using old by blast
  then show "B \<le> b \<and> b < length (h[a := ob])" by simp
qed

lemma refs_of_redact:
  "refs_of (HObj (map (\<lambda>(k, x). if k = key then (k, VStr s) else (k, x)) kvs)) \<subseteq> refs_of (HObj kvs)"
proof
  fix b
  let ?f = "\<lambda>(k, x). if k = key then (k, VStr s) else (k, x)"
  assume "b \<in> refs_of (HObj (map ?f kvs))"
  then have "VRef b \<in> snd ` ?f ` set kvs" by simp
  then obtain p where p: "p \<in> set kvs" and e: "snd (?f p) = VRef b" by force
  obtain k x where kx: "p = (k, x)" by (cases p)
  have "x = VRef b" using e kx by (simp split: if_splits)
  then have "VRef b \<in> snd ` set kvs" using p kx by force
  then show "b \<in> refs_of (HObj kvs)" by simp
qed

lemma set_field_frame:
  assumes c: "closed_from B h" and a: "B \<le> a"
  shows "frame B h (set_field a key (VStr s) h)"
proof (cases "a < length h")
  case False
  then show ?thesis using c by (simp add: set_field_def frame_def)
next
  case True
  show ?thesis
  proof (cases "h ! a")
    case (HArr vs)
    then show ?thesis using c True by (simp add: set_field_def frame_def)
  next
    case (HObj kvs)
    let ?ob = "HObj (map (\<lambda>(k, x). if k = key then (k, VStr s) else (k, x)) kvs)"
    have s: "set_field a key (VStr s) h = h[a := ?ob]"
      using True HObj by (simp add: set_field_def)
    have "refs_of ?ob \<subseteq> refs_of (h ! a)" unfolding HObj by (rule refs_of_redact)
    then have "closed_from B (h[a := ?ob])" by (rule closed_from_update[OF c True])
    then show ?thesis unfolding s frame_def using a by simp
  qed
qed

lemma get_field_range:
  assumes c: "closed_from B h" and a: "B \<le> a" and g: "get_field a key h = Some (VRef b)"
  shows "in_range B h (VRef b)"
proof -
  from g have al: "a < length h" by (simp add: get_field_def split: if_splits)
  from g al obtain kvs where o: "h ! a = HObj kvs" and m: "map_of kvs key = Some (VRef b)"
    by (cases "h ! a") (simp_all add: get_field_def)
  from m have "(key, VRef b) \<in> set kvs" by (rule map_of_SomeD)
  then have "VRef b \<in> snd ` set kvs" by force
  then have "b \<in> refs_of (h ! a)" using o by simp
  moreover have "\<forall>b \<in> refs_of (h ! a). B \<le> b \<and> b < length h"
    using c a al unfolding closed_from_def by blast
  ultimately show ?thesis by simp
qed

lemma get_index_range:
  assumes c: "closed_from B h" and a: "B \<le> a" and g: "get_index a i h = Some (VRef b)"
  shows "in_range B h (VRef b)"
proof -
  from g have al: "a < length h" by (simp add: get_index_def split: if_splits)
  from g al obtain vs where o: "h ! a = HArr vs" and m: "i < length vs" "vs ! i = VRef b"
    by (cases "h ! a") (simp_all add: get_index_def split: if_splits)
  from m have "VRef b \<in> set vs" by (metis nth_mem)
  then have "b \<in> refs_of (h ! a)" using o by simp
  moreover have "\<forall>b \<in> refs_of (h ! a). B \<le> b \<and> b < length h"
    using c a al unfolding closed_from_def by blast
  ultimately show ?thesis by simp
qed

lemma removeSensitiveFields_in_frame:
  "closed_from B h \<Longrightarrow> in_range B h v \<Longrightarrow> frame B h (snd (removeSensitiveFields_in n v h))"
proof (induction n arbitrary: v h)
  case 0
  then show ?case by (cases v) (simp_all add: frame_refl)
next
  case (Suc n)
  show ?case
  proof (cases v)
    case (VRef a)
    have a: "B \<le> a" "a < length h" using Suc.prems(2) VRef by simp_all
    define J where "J = (\<lambda>acc :: bool \<times> store. frame B h (snd acc))"
    have J0: "J (True, h)" using Suc.prems(1) by (simp add: J_def frame_refl)
    show ?thesis
    proof (cases "h ! a")
      case (HObj kvs)
      define step where "step = (\<lambda>key (ok, h).
                     if \<not> ok then (ok, h)
                     else if is_sensitive key then (True, set_field a key (VStr ''[REDACTED]'') h)
                     else (case get_field a key h of
                             Some (VRef b) \<Rightarrow> removeSensitiveFields_in n (VRef b) h
                           | _ \<Rightarrow> (True, h)))"
      have Jstep: "J (step key acc)" if "J acc" for key acc
      proof -
        obtain ok hc where acc: "acc = (ok, hc)" by (cases acc)
        have f: "frame B h hc" using that acc by (simp add: J_def)
        then have c: "closed_from B hc" by (simp add: frame_def)
        show ?thesis
        proof (cases "\<not> ok")
          case True
          then show ?thesis using f acc by (simp add: step_def J_def)
        next
          case ok: False
          show ?thesis
          proof (cases "is_sensitive key")
            case True
            have "frame B h (set_field a key (VStr ''[REDACTED]'') hc)"
              by (rule frame_trans[OF f set_field_frame[OF c a(1)]])
            then show ?thesis using ok True acc by (simp add: step_def J_def)
          next
            case ns: False
            show ?thesis
            proof (cases "\<exists>b. get_field a key hc = Some (VRef b)")
              case True
              then obtain b where g: "get_field a key hc = Some (VRef b)" by blast
              have "in_range B hc (VRef b)" by (rule get_field_range[OF c a(1) g])
              then have "frame B hc (snd (removeSensitiveFields_in n (VRef b) hc))"
                by (rule Suc.IH[OF c])
              then have "frame B h (snd (removeSensitiveFields_in n (VRef b) hc))"
                by (rule frame_trans[OF f])
              then show ?thesis using ok ns acc g by (simp add: step_def J_def)
            next
              case False
              then have "step key acc = (True, hc)"
                using ok ns acc by (simp add: step_def split: option.splits jsval.splits)
              then show ?thesis using f by (simp add: J_def)
            qed
          qed
        qed
      qed
      have "J (fold step (map fst kvs) (True, h))"
        using J0 Jstep by (rule fold_invariant[where I = J])
      moreover have "removeSensitiveFields_in (Suc n) v h = fold step (map fst kvs) (True, h)"
        using VRef a HObj by (simp add: step_def)
      ultimately show ?thesis by (simp add: J_def)
    next
      case (HArr vs)
      define step where "step = (\<lambda>i (ok, h).
                     if \<not> ok then (ok, h)
                     else (case get_index a i h of
                             Some (VRef b) \<Rightarrow> removeSensitiveFields_in n (VRef b) h
                           | _ \<Rightarrow> (True, h)))"
      have Jstep: "J (step i acc)" if "J acc" for i acc
      proof -
        obtain ok hc where acc: "acc = (ok, hc)" by (cases acc)
        have f: "frame B h hc" using that acc by (simp add: J_def)
        then have c: "closed_from B hc" by (simp add: frame_def)
        show ?thesis
        proof (cases "\<not> ok")
          case True
          then show ?thesis using f acc by (simp add: step_def J_def)
        next
          case ok: False
          show ?thesis
          proof (cases "\<exists>b. get_index a i hc = Some (VRef b)")
            case True
            then obtain b where g: "get_index a i hc = Some (VRef b)" by blast
            have "in_range B hc (VRef b)" by (rule get_index_range[OF c a(1) g])
            then have "frame B hc (snd (removeSensitiveFields_in n (VRef b) hc))"
              by (rule Suc.IH[OF c])
            then have "frame B h (snd (removeSensitiveFields_in n (VRef b) hc))"
              by (rule frame_trans[OF f])
            then show ?thesis using ok acc g by (simp add: step_def J_def)
          next
            case False
            then have "step i acc = (True, hc)"
              using ok acc by (simp add: step_def split: option.splits jsval.splits)
            then show ?thesis using f by (simp add: J_def)
          qed
        qed
      qed
      have "J (fold step [0..<length vs] (True, h))"
        using J0 Jstep by (rule fold_invariant[where I = J])
      moreover have "removeSensitiveFields_in (Suc n) v h = fold step [0..<length vs] (True, h)"
        using VRef a HArr by (simp add: step_def)
      ultimately show ?thesis by (simp add: J_def)
    qed
  qed (simp_all add: frame_refl Suc.prems)
qed
lemma those_map_Some:
  "those (map f xs) = Some ys \<Longrightarrow> list_all2 (\<lambda>x y. f x = Some y) xs ys"
proof (induction xs arbitrary: ys)
  case Nil
  then show ?case by simp
next
  case (Cons x xs)
  then show ?case by (auto split: option.splits)
qed

lemma list_all2_rightD:
  "list_all2 P xs ys \<Longrightarrow> y \<in> set ys \<Longrightarrow> \<exists>x \<in> set xs. P x y"
  by (induction rule: list_all2_induct) auto

lemma stringify_prim_fits:
  "\<forall>a. v \<noteq> VRef a \<Longrightarrow> stringify n h v = Some j \<Longrightarrow> fits m j"
  by (cases v) auto

lemma stringify_fits: "stringify n h v = Some j \<Longrightarrow> fits n j"
proof (induction n arbitrary: v j)
  case 0
  then show ?case by (cases v) auto
next
  case (Suc n)
  show ?case
  proof (cases "\<exists>a. v = VRef a")
    case False
    then show ?thesis using Suc.prems stringify_prim_fits by blast
  next
    case True
    then obtain a where VRef: "v = VRef a" by blast
    have al: "a < length h" using Suc.prems VRef by (simp split: if_splits)
    show ?thesis
    proof (cases "h ! a")
      case (HObj kvs)
      let ?f = "\<lambda>(k, v). map_option (Pair k) (stringify n h v)"
      have "stringify (Suc n) h (VRef a) = map_option JObj (those (map ?f kvs))"
        using al HObj by simp
      then have "map_option JObj (those (map ?f kvs)) = Some j" using Suc.prems VRef by simp
      then obtain fs where fs: "those (map ?f kvs) = Some fs" and j: "j = JObj fs"
        unfolding map_option_eq_Some by blast
      have l2: "list_all2 (\<lambda>x y. ?f x = Some y) kvs fs" by (rule those_map_Some[OF fs])
      have "fits n (snd y)" if "y \<in> set fs" for y
      proof -
        from list_all2_rightD[OF l2 that] obtain p where "p \<in> set kvs" and e: "?f p = Some y"
          by blast
        obtain k' v' where p: "p = (k', v')" by (cases p)
        from e p have "map_option (Pair k') (stringify n h v') = Some y" by simp
        then obtain x where "stringify n h v' = Some x" and "y = (k', x)"
          unfolding map_option_eq_Some by blast
        then show ?thesis using Suc.IH by simp
      qed
      then have "list_all (\<lambda>(k, x). fits n x) fs"
        unfolding list_all_iff by (simp add: case_prod_beta)
      then show ?thesis unfolding j by simp
    next
      case (HArr vs)
      have "stringify (Suc n) h (VRef a) = map_option JArr (those (map (stringify n h) vs))"
        using al HArr by simp
      then have "map_option JArr (those (map (stringify n h) vs)) = Some j"
        using Suc.prems VRef by simp
      then obtain ys where ys: "those (map (stringify n h) vs) = Some ys" and j: "j = JArr ys"
        unfolding map_option_eq_Some by blast
      have l2: "list_all2 (\<lambda>x y. stringify n h x = Some y) vs ys" by (rule those_map_Some[OF ys])
      have "fits n y" if "y \<in> set ys" for y
      proof -
        from list_all2_rightD[OF l2 that] obtain x where "stringify n h x = Some y" by blast
        then show ?thesis by (rule Suc.IH)
      qed
      then have "list_all (fits n) ys" unfolding list_all_iff by simp
      then show ?thesis unfolding j by simp
    qed
  qed
qed

lemma tree_extend:
  "tree n h v \<Longrightarrow> take (length h) h' = h \<Longrightarrow> length h \<le> length h' \<Longrightarrow> tree n h' v"
proof (induction n arbitrary: v)
  case 0
  then show ?case by (cases v) auto
next
  case (Suc n)
  show ?case
  proof (cases v)
    case (VRef a)
    have a: "a < length h" and ch: "\<forall>b \<in> refs_of (h ! a). tree n h (VRef b)"
      using Suc.prems(1) VRef by simp_all
    have e: "h' ! a = h ! a" using Suc.prems(2) a by (metis nth_take)
    have "\<forall>b \<in> refs_of (h' ! a). tree n h' (VRef b)"
      unfolding e using ch Suc.IH[OF _ Suc.prems(2,3)] by blast
    then show ?thesis using VRef a Suc.prems(3) by simp
  qed simp_all
qed

lemma shrink_refl: "shrink h h"
  by (simp add: shrink_def)

lemma shrink_trans: "shrink h h1 \<Longrightarrow> shrink h1 h2 \<Longrightarrow> shrink h h2"
  unfolding shrink_def by (metis subset_trans)

lemma tree_shrink: "tree n h v \<Longrightarrow> shrink h h' \<Longrightarrow> tree n h' v"
proof (induction n arbitrary: v)
  case 0
  then show ?case by (cases v) auto
next
  case (Suc n)
  show ?case
  proof (cases v)
    case (VRef a)
    have a: "a < length h" and ch: "\<forall>b \<in> refs_of (h ! a). tree n h (VRef b)"
      using Suc.prems(1) VRef by simp_all
    have sub: "refs_of (h' ! a) \<subseteq> refs_of (h ! a)" and l: "length h' = length h"
      using Suc.prems(2) a unfolding shrink_def by blast+
    have "\<forall>b \<in> refs_of (h' ! a). tree n h' (VRef b)"
      using ch sub Suc.IH[OF _ Suc.prems(2)] by blast
    then show ?thesis using VRef a l by simp
  qed simp_all
qed

lemma set_field_shrink: "shrink h (set_field a key (VStr s) h)"
proof (cases "a < length h")
  case False
  then show ?thesis by (simp add: set_field_def shrink_refl)
next
  case True
  show ?thesis
  proof (cases "h ! a")
    case (HArr vs)
    then show ?thesis using True by (simp add: set_field_def shrink_refl)
  next
    case (HObj kvs)
    let ?ob = "HObj (map (\<lambda>(k, x). if k = key then (k, VStr s) else (k, x)) kvs)"
    have s: "set_field a key (VStr s) h = h[a := ?ob]"
      using True HObj by (simp add: set_field_def)
    have sub: "refs_of ?ob \<subseteq> refs_of (h ! a)" unfolding HObj by (rule refs_of_redact)
    have "refs_of (h[a := ?ob] ! x) \<subseteq> refs_of (h ! x)" if "x < length h" for x
    proof (cases "x = a")
      case True
      then show ?thesis using sub that by simp
    next
      case False
      then show ?thesis by simp
    qed
    then show ?thesis unfolding s shrink_def by simp
  qed
qed

lemma parse_tree: "fits n j \<Longrightarrow> tree n (snd (parse j h)) (fst (parse j h))"
proof (induction j h arbitrary: n rule: parse.induct)
  case (5 xs h)
  from "5.prems" obtain m where n: "n = Suc m" and fx: "\<forall>x \<in> set xs. fits m x"
    by (cases n) (auto simp: list_all_iff)
  define I where "I = (\<lambda>acc :: jsval list \<times> store. \<forall>v \<in> set (fst acc). tree m (snd acc) v)"
  define step where "step = (\<lambda>x (vs :: jsval list, hc). let (v, h') = parse x hc in (vs @ [v], h'))"
  have I0: "I ([], h)" by (simp add: I_def)
  have Istep: "I (step x acc)" if x: "x \<in> set xs" and acc: "I acc" for x acc
  proof -
    obtain vs hc where a: "acc = (vs, hc)" by (cases acc)
    obtain v h' where p: "parse x hc = (v, h')" by (cases "parse x hc")
    have new: "tree m h' v" using "5.IH"[OF x, of m hc] fx x p by simp
    have P: "parsed hc (v, h')" using parse_parsed[of hc x] p by simp
    then have ext: "take (length hc) h' = hc" "length hc \<le> length h'"
      by (simp_all add: parsed_def)
    have old: "\<forall>v \<in> set vs. tree m hc v" using acc a by (simp add: I_def)
    have "\<forall>v \<in> set vs. tree m h' v" using old tree_extend[OF _ ext] by blast
    then show ?thesis using new a p by (simp add: I_def step_def)
  qed
  have "I (fold step xs ([], h))" using I0 Istep by (rule fold_invariant[where I = I])
  moreover obtain vs h1 where f: "fold step xs ([], h) = (vs, h1)" by (cases "fold step xs ([], h)")
  ultimately have vs: "\<forall>v \<in> set vs. tree m h1 v" by (simp add: I_def)
  have res: "parse (JArr xs) h = (VRef (length h1), h1 @ [HArr vs])"
    using f by (simp add: step_def)
  have "\<forall>b \<in> refs_of (HArr vs). tree m (h1 @ [HArr vs]) (VRef b)"
  proof
    fix b assume "b \<in> refs_of (HArr vs)"
    then have "tree m h1 (VRef b)" using vs by simp
    then show "tree m (h1 @ [HArr vs]) (VRef b)" by (rule tree_extend) simp_all
  qed
  then show ?case unfolding res n by simp
next
  case (6 kvs h)
  from "6.prems" obtain m where n: "n = Suc m"
    and fx: "\<forall>kx \<in> set kvs. case kx of (k, x) \<Rightarrow> fits m x"
    by (cases n) (auto simp: list_all_iff)
  define I where "I = (\<lambda>acc :: (string \<times> jsval) list \<times> store.
      \<forall>v \<in> snd ` set (fst acc). tree m (snd acc) v)"
  define step where "step = (\<lambda>(k :: string, x) (fs :: (string \<times> jsval) list, hc).
      let (v, h') = parse x hc in (fs @ [(k, v)], h'))"
  have I0: "I ([], h)" by (simp add: I_def)
  have Istep: "I (step kx acc)" if kx: "kx \<in> set kvs" and acc: "I acc" for kx acc
  proof -
    obtain k x where kxe: "kx = (k, x)" by (cases kx)
    obtain fs hc where a: "acc = (fs, hc)" by (cases acc)
    obtain v h' where p: "parse x hc = (v, h')" by (cases "parse x hc")
    have "fits m x" using fx kx kxe by force
    then have new: "tree m h' v" using "6.IH"[OF kx kxe[symmetric], of m hc] p by simp
    have P: "parsed hc (v, h')" using parse_parsed[of hc x] p by simp
    then have ext: "take (length hc) h' = hc" "length hc \<le> length h'"
      by (simp_all add: parsed_def)
    have old: "\<forall>v \<in> snd ` set fs. tree m hc v" using acc a by (simp add: I_def)
    have "\<forall>v \<in> snd ` set fs. tree m h' v" using old tree_extend[OF _ ext] by blast
    then show ?thesis using new a p kxe by (simp add: I_def step_def)
  qed
  have "I (fold step kvs ([], h))" using I0 Istep by (rule fold_invariant[where I = I])
  moreover obtain fs h1 where f: "fold step kvs ([], h) = (fs, h1)"
    by (cases "fold step kvs ([], h)")
  ultimately have fs: "\<forall>v \<in> snd ` set fs. tree m h1 v" by (simp add: I_def)
  have res: "parse (JObj kvs) h = (VRef (length h1), h1 @ [HObj fs])"
    using f by (simp add: step_def)
  have "\<forall>b \<in> refs_of (HObj fs). tree m (h1 @ [HObj fs]) (VRef b)"
  proof
    fix b assume "b \<in> refs_of (HObj fs)"
    then have "VRef b \<in> snd ` set fs" by simp
    then have "tree m h1 (VRef b)" using fs by blast
    then show "tree m (h1 @ [HObj fs]) (VRef b)" by (rule tree_extend) simp_all
  qed
  then show ?case unfolding res n by simp
qed simp_all

lemma get_field_refs: "get_field a key h = Some (VRef b) \<Longrightarrow> b \<in> refs_of (h ! a)"
proof -
  assume g: "get_field a key h = Some (VRef b)"
  then have al: "a < length h" by (simp add: get_field_def split: if_splits)
  from g al obtain kvs where o: "h ! a = HObj kvs" and m: "map_of kvs key = Some (VRef b)"
    by (cases "h ! a") (simp_all add: get_field_def)
  from m have "(key, VRef b) \<in> set kvs" by (rule map_of_SomeD)
  then have "VRef b \<in> snd ` set kvs" by force
  then show ?thesis using o by simp
qed

lemma get_index_refs: "get_index a i h = Some (VRef b) \<Longrightarrow> b \<in> refs_of (h ! a)"
proof -
  assume g: "get_index a i h = Some (VRef b)"
  then have al: "a < length h" by (simp add: get_index_def split: if_splits)
  from g al obtain vs where o: "h ! a = HArr vs" and m: "i < length vs" "vs ! i = VRef b"
    by (cases "h ! a") (simp_all add: get_index_def split: if_splits)
  from m have "VRef b \<in> set vs" by (metis nth_mem)
  then show ?thesis using o by simp
qed

lemma removeSensitiveFields_in_completes:
  "tree n h v \<Longrightarrow> fst (removeSensitiveFields_in n v h) \<and> shrink h (snd (removeSensitiveFields_in n v h))"
proof (induction n arbitrary: v h)
  case 0
  then show ?case by (cases v) (simp_all add: shrink_refl)
next
  case (Suc n)
  show ?case
  proof (cases v)
    case (VRef a)
    have a: "a < length h" and ch: "\<forall>b \<in> refs_of (h ! a). tree n h (VRef b)"
      using Suc.prems VRef by simp_all
    define J where "J = (\<lambda>acc :: bool \<times> store. fst acc \<and> shrink h (snd acc))"
    have J0: "J (True, h)" by (simp add: J_def shrink_refl)
    have child: "J (removeSensitiveFields_in n (VRef b) hc)"
      if s: "shrink h hc" and b: "b \<in> refs_of (hc ! a)" for b hc
    proof -
      have "refs_of (hc ! a) \<subseteq> refs_of (h ! a)" using s a unfolding shrink_def by blast
      then have "tree n h (VRef b)" using ch b by blast
      then have "tree n hc (VRef b)" using s by (rule tree_shrink)
      then have "fst (removeSensitiveFields_in n (VRef b) hc) \<and>
                 shrink hc (snd (removeSensitiveFields_in n (VRef b) hc))"
        by (rule Suc.IH)
      then show ?thesis using shrink_trans[OF s] by (simp add: J_def)
    qed
    show ?thesis
    proof (cases "h ! a")
      case (HObj kvs)
      define step where "step = (\<lambda>key (ok, h).
                     if \<not> ok then (ok, h)
                     else if is_sensitive key then (True, set_field a key (VStr ''[REDACTED]'') h)
                     else (case get_field a key h of
                             Some (VRef b) \<Rightarrow> removeSensitiveFields_in n (VRef b) h
                           | _ \<Rightarrow> (True, h)))"
      have Jstep: "J (step key acc)" if "J acc" for key acc
      proof -
        obtain ok hc where acc: "acc = (ok, hc)" by (cases acc)
        have ok: "ok" and s: "shrink h hc" using that acc by (simp_all add: J_def)
        show ?thesis
        proof (cases "is_sensitive key")
          case True
          have "shrink h (set_field a key (VStr ''[REDACTED]'') hc)"
            by (rule shrink_trans[OF s set_field_shrink])
          then show ?thesis using ok True acc by (simp add: step_def J_def)
        next
          case ns: False
          show ?thesis
          proof (cases "\<exists>b. get_field a key hc = Some (VRef b)")
            case True
            then obtain b where g: "get_field a key hc = Some (VRef b)" by blast
            have "J (removeSensitiveFields_in n (VRef b) hc)"
              by (rule child[OF s get_field_refs[OF g]])
            then show ?thesis using ok ns acc g by (simp add: step_def)
          next
            case False
            then have "step key acc = (True, hc)"
              using ok ns acc by (simp add: step_def split: option.splits jsval.splits)
            then show ?thesis using s by (simp add: J_def)
          qed
        qed
      qed
      have "J (fold step (map fst kvs) (True, h))"
        using J0 Jstep by (rule fold_invariant[where I = J])
      moreover have "removeSensitiveFields_in (Suc n) v h = fold step (map fst kvs) (True, h)"
        using VRef a HObj by (simp add: step_def)
      ultimately show ?thesis by (simp add: J_def)
    next
      case (HArr vs)
      define step where "step = (\<lambda>i (ok, h).
                     if \<not> ok then (ok, h)
                     else (case get_index a i h of
                             Some (VRef b) \<Rightarrow> removeSensitiveFields_in n (VRef b) h
                           | _ \<Rightarrow> (True, h)))"
      have Jstep: "J (step i acc)" if "J acc" for i acc
      proof -
        obtain ok hc where acc: "acc = (ok, hc)" by (cases acc)
        have ok: "ok" and s: "shrink h hc" using that acc by (simp_all add: J_def)
        show ?thesis
        proof (cases "\<exists>b. get_index a i hc = Some (VRef b)")
          case True
          then obtain b where g: "get_index a i hc = Some (VRef b)" by blast
          have "J (removeSensitiveFields_in n (VRef b) hc)"
            by (rule child[OF s get_index_refs[OF g]])
          then show ?thesis using ok acc g by (simp add: step_def)
        next
          case False
          then have "step i acc = (True, hc)"
            using ok acc by (simp add: step_def split: option.splits jsval.splits)
          then show ?thesis using s by (simp add: J_def)
        qed
      qed
      have "J (fold step [0..<length vs] (True, h))"
        using J0 Jstep by (rule fold_invariant[where I = J])
      moreover have "removeSensitiveFields_in (Suc n) v h = fold step [0..<length vs] (True, h)"
        using VRef a HArr by (simp add: step_def)
      ultimately show ?thesis by (simp add: J_def)
    qed
  qed (simp_all add: shrink_refl)
qed

lemma sanitize_in_returns:
  assumes "stringify n h data = Some j"
  shows "fst (sanitizeWebhookPayload_in n data h) = Inr (fst (parse j h))"
proof (cases "\<exists>a. data = VRef a")
  case False
  then have "sanitizeWebhookPayload_in n data h = (Inr data, h)"
    by (cases data) (simp_all add: sanitizeWebhookPayload_in_def)
  moreover have "fst (parse j h) = data" using False assms by (cases data) auto
  ultimately show ?thesis by simp
next
  case True
  then obtain a where d: "data = VRef a" by blast
  obtain v h1 where p: "parse j h = (v, h1)" by (cases "parse j h")
  have "fits n j" by (rule stringify_fits[OF assms])
  then have "tree n h1 v" using parse_tree[of n j h] p by simp
  then have "fst (removeSensitiveFields_in n v h1)"
    using removeSensitiveFields_in_completes by blast
  then obtain h2 where "removeSensitiveFields_in n v h1 = (True, h2)"
    by (cases "removeSensitiveFields_in n v h1") simp
  then show ?thesis using assms d p by (simp add: sanitizeWebhookPayload_in_def)
qed

lemma sanitize_in_throws:
  assumes "stringify n h data = None"
  shows "sanitizeWebhookPayload_in n data h = (Inl NotSerializable, h)"
  using assms by (cases data) (simp_all add: sanitizeWebhookPayload_in_def)

lemma those_map_mono:
  "those (map f xs) = Some ys \<Longrightarrow> (\<And>x y. x \<in> set xs \<Longrightarrow> f x = Some y \<Longrightarrow> g x = Some y) \<Longrightarrow>
   those (map g xs) = Some ys"
proof (induction xs arbitrary: ys)
  case Nil
  then show ?case by simp
next
  case (Cons x xs)
  from Cons.prems(1) obtain y zs where y: "f x = Some y" and zs: "those (map f xs) = Some zs"
    and ys: "ys = y # zs"
    by (auto split: option.splits)
  have "g x = Some y" using Cons.prems(2) y by simp
  moreover have "those (map g xs) = Some zs"
    by (rule Cons.IH[OF zs]) (simp add: Cons.prems(2))
  ultimately show ?case using ys by simp
qed

lemma stringify_Suc: "stringify n h v = Some j \<Longrightarrow> stringify (Suc n) h v = Some j"
proof (induction n arbitrary: v j)
  case 0
  then show ?case by (cases v) auto
next
  case (Suc n)
  show ?case
  proof (cases "\<exists>a. v = VRef a")
    case False
    then show ?thesis using Suc.prems by (cases v) auto
  next
    case True
    then obtain a where VRef: "v = VRef a" by blast
    have al: "a < length h" using Suc.prems VRef by (simp split: if_splits)
    show ?thesis
    proof (cases "h ! a")
      case (HObj kvs)
      let ?f = "\<lambda>m (k, v). map_option (Pair k) (stringify m h v)"
      have e: "stringify (Suc m) h (VRef a) = map_option JObj (those (map (?f m) kvs))" for m
        using al HObj by simp
      have "map_option JObj (those (map (?f n) kvs)) = Some j"
        using Suc.prems unfolding VRef e[of n] .
      then obtain fs where fs: "those (map (?f n) kvs) = Some fs" and j: "j = JObj fs"
        unfolding map_option_eq_Some by blast
      have "those (map (?f (Suc n)) kvs) = Some fs"
      proof (rule those_map_mono[OF fs])
        fix x y assume "x \<in> set kvs" and xy: "?f n x = Some y"
        obtain k w where x: "x = (k, w)" by (cases x)
        from xy x obtain z where "stringify n h w = Some z" and y: "y = (k, z)"
          unfolding map_option_eq_Some by auto
        then have "stringify (Suc n) h w = Some z" using Suc.IH by blast
        then show "?f (Suc n) x = Some y" using x y by simp
      qed
      then show ?thesis unfolding VRef e[of "Suc n"] j by simp
    next
      case (HArr vs)
      have e: "stringify (Suc m) h (VRef a) = map_option JArr (those (map (stringify m h) vs))" for m
        using al HArr by simp
      have "map_option JArr (those (map (stringify n h) vs)) = Some j"
        using Suc.prems unfolding VRef e[of n] .
      then obtain ys where ys: "those (map (stringify n h) vs) = Some ys" and j: "j = JArr ys"
        unfolding map_option_eq_Some by blast
      have "those (map (stringify (Suc n) h) vs) = Some ys"
        by (rule those_map_mono[OF ys]) (rule Suc.IH)
      then show ?thesis unfolding VRef e[of "Suc n"] j by simp
    qed
  qed
qed

lemma stringify_mono: "stringify n h v = Some j \<Longrightarrow> stringify (n + k) h v = Some j"
  by (induction k) (simp_all add: stringify_Suc)

lemma sanitize_in_copy:
  "\<exists>r h2. sanitizeWebhookPayload_in n (VRef a) h = (r, h2) \<and> take (length h) h2 = h \<and>
     length h \<le> length h2 \<and> closed_from (length h) h2 \<and>
     (\<forall>v. r = Inr v \<longrightarrow> in_range (length h) h2 v)"
proof (cases "stringify n h (VRef a)")
  case None
  then show ?thesis by (simp add: sanitizeWebhookPayload_in_def parsed_prim)
next
  case (Some doc)
  obtain sanitized h1 where p: "parse doc h = (sanitized, h1)" by (cases "parse doc h")
  obtain ok h2 where r: "removeSensitiveFields_in n sanitized h1 = (ok, h2)"
    by (cases "removeSensitiveFields_in n sanitized h1")
  have P: "parsed h (sanitized, h1)" using parse_parsed[of h doc] p by simp
  then have h1: "take (length h) h1 = h" "length h \<le> length h1" "closed_from (length h) h1"
    "in_range (length h) h1 sanitized"
    by (simp_all add: parsed_def)
  have "frame (length h) h1 h2"
    using removeSensitiveFields_in_frame[OF h1(3) h1(4), of n] r by simp
  then have h2: "length h2 = length h1" "take (length h) h2 = take (length h) h1"
    "closed_from (length h) h2"
    by (simp_all add: frame_def)
  have rng: "in_range (length h) h2 sanitized"
    by (rule in_range_mono[OF h1(4) order_refl]) (simp add: h2(1))
  have res: "sanitizeWebhookPayload_in n (VRef a) h =
      (if ok then Inr sanitized else Inl StackExhausted, h2)"
    using Some p r by (simp add: sanitizeWebhookPayload_in_def)
  show ?thesis unfolding res using h1 h2 rng by auto
qed

lemma sanitize_in_prim:
  "\<forall>a. data \<noteq> VRef a \<Longrightarrow> sanitizeWebhookPayload_in n data h = (Inr data, h)"
  by (cases data) (simp_all add: sanitizeWebhookPayload_in_def)

lemma sanitize_in_prefix:
  "take (length h) (snd (sanitizeWebhookPayload_in n data h)) = h \<and>
   length h \<le> length (snd (sanitizeWebhookPayload_in n data h))"
proof (cases "\<exists>a. data = VRef a")
  case True
  then obtain a where "data = VRef a" by blast
  then show ?thesis using sanitize_in_copy[of n a h] by auto
next
  case False
  then show ?thesis by (simp add: sanitize_in_prim)
qed

lemma take_prefix_trans:
  assumes "take (length h) h0 = h" "length h \<le> length h0" "take (length h0) h1 = h0"
  shows "take (length h) h1 = h"
proof -
  have "take (length h) h1 = take (length h) (take (length h0) h1)"
    using assms(2) by (simp add: min_def)
  then show ?thesis using assms(1,3) by simp
qed

lemma sendSessionStarted_prefix:
  "take (length h) (snd (sendSessionStarted en n ts sid meta h)) = h"
proof (cases en)
  case False
  then show ?thesis by (simp add: sendSessionStarted_def)
next
  case True
  define mh where "mh = (case meta of
                         Some v \<Rightarrow> if truthy v then (v, h) else (VRef (length h), h @ [HObj []])
                       | None \<Rightarrow> (VRef (length h), h @ [HObj []]))"
  obtain m h0 where mh0: "mh = (m, h0)" by (cases mh)
  have h0: "take (length h) h0 = h" "length h \<le> length h0"
    using mh0 by (auto simp: mh_def split: option.splits if_splits)
  obtain r h1 where s: "sanitizeWebhookPayload_in n m h0 = (r, h1)"
    by (cases "sanitizeWebhookPayload_in n m h0")
  have h1: "take (length h0) h1 = h0" "length h0 \<le> length h1"
    using sanitize_in_prefix[of h0 n m] s by simp_all
  have t: "take (length h) h1 = h" by (rule take_prefix_trans[OF h0 h1(1)])
  have l: "length h \<le> length h1" using h0(2) h1(2) by simp
  have "snd (sendSessionStarted en n ts sid meta h) = h1 \<or>
        (\<exists>ob. snd (sendSessionStarted en n ts sid meta h) = h1 @ [ob])"
    using True mh0 s unfolding sendSessionStarted_def mh_def[symmetric]
    by (cases r) simp_all
  then show ?thesis using t l by auto
qed

text \<open>
  C10. sanitizeWebhookPayload leaves its argument as it was. Whatever the store, the
  argument and the depth bound: (1) after the call, every object that existed before it is
  what it was, so the caller's object and all that it refers to keep their values;
  (2) when the argument is an object and the call returns, the result is a new object, and
  the new objects refer to new objects only (a deep copy: no part of it is shared with what
  existed before); (3) the call does return whenever JSON.stringify serialises the
  argument: with the bound at which it does, and with every larger one, the result is the
  value that JSON.parse makes of the text; (4) null, a boolean, a number and a string are
  returned as they are, in an unchanged store; (5) after sendSessionStarted, which builds
  the notification from the token metadata and hands it to the queue, every object that
  existed before is what it was.
\<close>

theorem sanitize_leaves_argument:
  "take (length h) (snd (sanitizeWebhookPayload_in n data h)) = h \<and>
   (\<forall>a v h'. data = VRef a \<and> sanitizeWebhookPayload_in n data h = (Inr v, h') \<longrightarrow>
      in_range (length h) h' v \<and> closed_from (length h) h') \<and>
   (\<forall>j k. stringify n h data = Some j \<longrightarrow>
      fst (sanitizeWebhookPayload_in (n + k) data h) = Inr (fst (parse j h))) \<and>
   sanitizeWebhookPayload_in n VNull h = (Inr VNull, h) \<and>
   sanitizeWebhookPayload_in n (VBool b) h = (Inr (VBool b), h) \<and>
   sanitizeWebhookPayload_in n (VNum i) h = (Inr (VNum i), h) \<and>
   sanitizeWebhookPayload_in n (VStr s) h = (Inr (VStr s), h) \<and>
   take (length h) (snd (sendSessionStarted isEnabled n timestamp sid meta h)) = h"
proof -
  have copy: "in_range (length h) h' v \<and> closed_from (length h) h'"
    if "data = VRef a" "sanitizeWebhookPayload_in n data h = (Inr v, h')" for a v h'
    using sanitize_in_copy[of n a h] that by auto
  have returns: "fst (sanitizeWebhookPayload_in (n + k) data h) = Inr (fst (parse j h))"
    if "stringify n h data = Some j" for j k
    by (rule sanitize_in_returns[OF stringify_mono[OF that]])
  have frame: "take (length h) (snd (sanitizeWebhookPayload_in n data h)) = h"
    using sanitize_in_prefix[of h n data] by simp
  have prims: "sanitizeWebhookPayload_in n VNull h = (Inr VNull, h)"
    "sanitizeWebhookPayload_in n (VBool b) h = (Inr (VBool b), h)"
    "sanitizeWebhookPayload_in n (VNum i) h = (Inr (VNum i), h)"
    "sanitizeWebhookPayload_in n (VStr s) h = (Inr (VStr s), h)"
    by (simp_all add: sanitize_in_prim)
  show ?thesis
    using frame copy returns prims sendSessionStarted_prefix[of h isEnabled n timestamp sid meta]
    by blast
qed

text \<open>
  The example: the metadata object at address 1 with its nested object at address 0. The
  call returns the new object at address 3, whose nested object is the new one at address
  2; both copies are redacted, and the two original objects read as before. A larger bound
  gives the same reference.
\<close>

theorem sanitize_leaves_argument_witness:
  "stringify 3 meta_store (VRef 1) = Some meta_json \<and>
   sanitizeWebhookPayload_in 3 (VRef 1) meta_store = (Inr (VRef 3), meta_store @ meta_copy) \<and>
   fst (sanitizeWebhookPayload_in (3 + 2) (VRef 1) meta_store) = Inr (VRef 3) \<and>
   in_range (length meta_store) (meta_store @ meta_copy) (VRef 3) \<and>
   closed_from (length meta_store) (meta_store @ meta_copy) \<and>
   take (length meta_store) (meta_store @ meta_copy) = meta_store \<and>
   get_field 1 ''api_key'' (meta_store @ meta_copy) = Some (VStr ''x'') \<and>
   get_field 0 ''secret'' (meta_store @ meta_copy) = Some (VStr ''s3cr3t'') \<and>
   get_field 3 ''api_key'' (meta_store @ meta_copy) = Some (VStr ''[REDACTED]'') \<and>
   get_field 3 ''account'' (meta_store @ meta_copy) = Some (VRef 2) \<and>
   get_field 2 ''secret'' (meta_store @ meta_copy) = Some (VStr ''[REDACTED]'')"
proof -
  have str: "stringify 3 meta_store (VRef 1) = Some meta_json"
    by (simp add: meta_store_def meta_json_def numeral_3_eq_3)
  have par: "fst (parse meta_json meta_store) = VRef 3"
    by (simp add: meta_store_def meta_json_def)
  have run: "sanitizeWebhookPayload_in 3 (VRef 1) meta_store = (Inr (VRef 3), meta_store @ meta_copy)"
    by (simp add: sanitizeWebhookPayload_in_def meta_store_def meta_copy_def numeral_3_eq_3
        set_field_def get_field_def is_sensitive_def sensitiveFields_def toLowerCase_def
        lower_char_def)
  have reads: "get_field 1 ''api_key'' (meta_store @ meta_copy) = Some (VStr ''x'')"
    "get_field 0 ''secret'' (meta_store @ meta_copy) = Some (VStr ''s3cr3t'')"
    "get_field 3 ''api_key'' (meta_store @ meta_copy) = Some (VStr ''[REDACTED]'')"
    "get_field 3 ''account'' (meta_store @ meta_copy) = Some (VRef 2)"
    "get_field 2 ''secret'' (meta_store @ meta_copy) = Some (VStr ''[REDACTED]'')"
    by (simp_all add: get_field_def meta_store_def meta_copy_def)
  note inst = sanitize_leaves_argument [of meta_store 3 "VRef 1"]
  have fresh: "in_range (length meta_store) (meta_store @ meta_copy) (VRef 3) \<and>
        closed_from (length meta_store) (meta_store @ meta_copy)"
    using inst run by blast
  have "fst (sanitizeWebhookPayload_in (3 + 2) (VRef 1) meta_store) = Inr (fst (parse meta_json meta_store))"
    using inst str by blast
  then have larger: "fst (sanitizeWebhookPayload_in (3 + 2) (VRef 1) meta_store) = Inr (VRef 3)"
    unfolding par .
  show ?thesis using str run larger fresh reads by simp
qed

end
